theory Spec2Isabelle
  imports Main
begin

section \<open>Constants and the board state\<close>

text \<open>
  The agent of \<^verbatim>\<open>agent_200.c\<close> plays a gravity-drop game on a grid of \<open>ROWS\<close> rows and
  \<open>COLS\<close> columns. C's \<open>int\<close> is modelled by \<open>int\<close>; the 32-bit range shows in the two
  sentinels \<open>INT_MIN\<close> and \<open>INT_MAX\<close> and where \<^verbatim>\<open>scanf\<close> stores a numeral of the input
  (\<open>store_int\<close> below). All other arithmetic of the program stays far inside that range
  (heights at most \<open>ROWS\<close>, stone counts at most \<open>ROWS * COLS\<close>, scores at most 100000 in
  absolute value).
\<close>

definition COLS :: int where
  "COLS = 7"

definition ROWS :: int where
  "ROWS = 6"

definition MAX_DEPTH :: int where
  "MAX_DEPTH = 6"

definition INT_MIN :: int where
  "INT_MIN = - 2147483648"

definition INT_MAX :: int where
  "INT_MAX = 2147483647"

text \<open>
  \<^verbatim>\<open>typedef struct { int board[ROWS][COLS]; int top[COLS]; int player; } State;\<close>
  The fixed-size arrays are total maps from the index to the cell; the program only ever
  reads indices inside the array bounds, and theorems about writes state the bounds.
  The field \<open>top\<close> of the source is called \<open>tops\<close> here.
\<close>

record state =
  board :: "int \<Rightarrow> int \<Rightarrow> int"
  tops :: "int \<Rightarrow> int"
  player :: int

text \<open>The index ranges of the loops \<^verbatim>\<open>for (j = 0; j < COLS; j++)\<close> and
  \<^verbatim>\<open>for (i = 0; i < ROWS; i++)\<close>, and the row-major order of the nested loop.\<close>

definition col_indices :: "int list" where
  "col_indices = [0..COLS - 1]"

definition row_indices :: "int list" where
  "row_indices = [0..ROWS - 1]"

definition grid_cells :: "(int \<times> int) list" where
  "grid_cells = concat (map (\<lambda>i. map (\<lambda>j. (i, j)) col_indices) row_indices)"

section \<open>Move model\<close>

text \<open>\<^verbatim>\<open>copy_state\<close> copies every cell, every height and the player.\<close>

definition copy_state :: "state \<Rightarrow> state" where
  "copy_state src = \<lparr>board = board src, tops = tops src, player = player src\<rparr>"

text \<open>\<^verbatim>\<open>get_valid_moves\<close>: the columns \<open>j\<close> with \<open>top[j] < ROWS\<close>, in loop order; the
  returned count is the length of the list.\<close>

definition get_valid_moves :: "state \<Rightarrow> int list" where
  "get_valid_moves s = filter (\<lambda>j. tops s j < ROWS) col_indices"

text \<open>\<^verbatim>\<open>apply_move\<close>: write the mover's stone at \<open>board[top[move]][move]\<close>, increment
  the height, switch the player. The source checks nothing.\<close>

definition apply_move :: "state \<Rightarrow> int \<Rightarrow> state" where
  "apply_move s move =
     (let row = tops s move in
      s\<lparr>board := (board s)(row := (board s row)(move := player s)),
        tops := (tops s)(move := tops s move + 1),
        player := 3 - player s\<rparr>)"

section \<open>Counting stones\<close>

text \<open>Number of non-empty cells of the grid, and of one column.\<close>

definition occupied :: "state \<Rightarrow> nat" where
  "occupied s = length (filter (\<lambda>(i, j). board s i j \<noteq> 0) grid_cells)"

definition col_count :: "state \<Rightarrow> int \<Rightarrow> nat" where
  "col_count s c = length (filter (\<lambda>i. board s i c \<noteq> 0) row_indices)"

text \<open>The height invariant of the data model: every height is the number of stones of its
  column.\<close>

definition height_inv :: "state \<Rightarrow> bool" where
  "height_inv s = list_all (\<lambda>c. tops s c = int (col_count s c)) col_indices"

text \<open>Columns packed from row 0 upward: a cell holds a stone exactly below the height.\<close>

definition packed :: "state \<Rightarrow> bool" where
  "packed s =
     list_all (\<lambda>c. 0 \<le> tops s c \<and> tops s c \<le> ROWS \<and>
                 list_all (\<lambda>i. (board s i c \<noteq> 0) = (i < tops s c)) row_indices)
       col_indices"

section \<open>Terminal detector\<close>

text \<open>The body of the nested loop of \<^verbatim>\<open>check_winner\<close> for the cell \<open>(i, j)\<close>: \<open>None\<close> is
  \<^verbatim>\<open>continue\<close> or falling through all four tests, \<open>Some p\<close> is \<^verbatim>\<open>return player\<close>.\<close>

definition check_cell :: "state \<Rightarrow> int \<Rightarrow> int \<Rightarrow> int option" where
  "check_cell s i j =
     (let p = board s i j in
      if p = 0 then None
      else if j + 3 < COLS \<and>
              p = board s i (j + 1) \<and> p = board s i (j + 2) \<and> p = board s i (j + 3)
        then Some p
      else if i + 3 < ROWS \<and>
              p = board s (i + 1) j \<and> p = board s (i + 2) j \<and> p = board s (i + 3) j
        then Some p
      else if i + 3 < ROWS \<and> j + 3 < COLS \<and>
              p = board s (i + 1) (j + 1) \<and> p = board s (i + 2) (j + 2) \<and>
              p = board s (i + 3) (j + 3)
        then Some p
      else if i + 3 < ROWS \<and> j - 3 \<ge> 0 \<and>
              p = board s (i + 1) (j - 1) \<and> p = board s (i + 2) (j - 2) \<and>
              p = board s (i + 3) (j - 3)
        then Some p
      else None)"

fun scan_cells :: "state \<Rightarrow> (int \<times> int) list \<Rightarrow> int option" where
  "scan_cells s [] = None"
| "scan_cells s ((i, j) # rest) =
     (case check_cell s i j of Some p \<Rightarrow> Some p | None \<Rightarrow> scan_cells s rest)"

text \<open>\<^verbatim>\<open>check_winner\<close>: 0 = game in progress, 1 or 2 = that player won, -1 = draw. After the
  scan, \<open>full\<close> is cleared by the first column with \<open>top[j] < ROWS\<close>.\<close>

definition check_winner :: "state \<Rightarrow> int" where
  "check_winner s =
     (case scan_cells s grid_cells of
        Some p \<Rightarrow> p
      | None \<Rightarrow> if list_ex (\<lambda>j. tops s j < ROWS) col_indices then 0 else - 1)"

definition is_terminal :: "state \<Rightarrow> bool" where
  "is_terminal s = (check_winner s \<noteq> 0)"

section \<open>Static evaluator\<close>

text \<open>The counting loop of \<^verbatim>\<open>evaluate_state\<close> with its two counters.\<close>

fun count_loop :: "state \<Rightarrow> int \<Rightarrow> (int \<times> int) list \<Rightarrow> int \<times> int \<Rightarrow> int \<times> int" where
  "count_loop s root_player [] (count_root, count_opp) = (count_root, count_opp)"
| "count_loop s root_player ((i, j) # rest) (count_root, count_opp) =
     (if board s i j = root_player
        then count_loop s root_player rest (count_root + 1, count_opp)
      else if board s i j = 3 - root_player
        then count_loop s root_player rest (count_root, count_opp + 1)
      else count_loop s root_player rest (count_root, count_opp))"

definition evaluate_state :: "state \<Rightarrow> int \<Rightarrow> int" where
  "evaluate_state s root_player =
     (let winner = check_winner s in
      if winner = root_player then 100000
      else if winner = 3 - root_player then - 100000
      else if winner = - 1 then 0
      else (case count_loop s root_player grid_cells (0, 0) of
              (count_root, count_opp) \<Rightarrow> count_root - count_opp))"

section \<open>Alpha-beta search\<close>

text \<open>The number of stones that still fit on the board; every move on a valid column uses
  one up, which bounds the recursion whatever the depth argument is.\<close>

definition free_cells :: "state \<Rightarrow> nat" where
  "free_cells s = sum_list (map (\<lambda>j. nat (ROWS - tops s j)) col_indices)"

lemma col_indices_eq: "col_indices = [0, 1, 2, 3, 4, 5, 6]"
  by (simp add: col_indices_def COLS_def upto_rec1)

lemma row_indices_eq: "row_indices = [0, 1, 2, 3, 4, 5]"
  by (simp add: row_indices_def ROWS_def upto_rec1)

lemma set_col_indices: "set col_indices = {j. 0 \<le> j \<and> j < COLS}"
  by (auto simp: col_indices_def)

lemma set_row_indices: "set row_indices = {i. 0 \<le> i \<and> i < ROWS}"
  by (auto simp: row_indices_def)

lemma distinct_col_indices: "distinct col_indices"
  by (simp add: col_indices_def)

lemma distinct_row_indices: "distinct row_indices"
  by (simp add: row_indices_def)

lemma copy_state_id: "copy_state s = s"
  by (simp add: copy_state_def)

lemma apply_move_board:
  "board (apply_move s c) i j = (if i = tops s c \<and> j = c then player s else board s i j)"
  by (simp add: apply_move_def Let_def)

lemma apply_move_tops:
  "tops (apply_move s c) j = (if j = c then tops s c + 1 else tops s j)"
  by (simp add: apply_move_def Let_def)

lemma apply_move_player: "player (apply_move s c) = 3 - player s"
  by (simp add: apply_move_def Let_def)

lemma valid_move_iff:
  "c \<in> set (get_valid_moves s) \<longleftrightarrow> 0 \<le> c \<and> c < COLS \<and> tops s c < ROWS"
  by (auto simp: get_valid_moves_def set_col_indices)

lemma length_valid_moves: "length (get_valid_moves s) \<le> 7"
  unfolding get_valid_moves_def
  by (rule order_trans [OF length_filter_le]) (simp add: col_indices_eq)

lemma sum_list_update_less:
  assumes "distinct xs" and "c \<in> set xs" and "g c < f c"
    and "\<And>y. y \<in> set xs \<Longrightarrow> y \<noteq> c \<Longrightarrow> g y = f y"
  shows "sum_list (map g xs) < (sum_list (map f xs) :: nat)"
  using assms
proof (induction xs)
  case Nil
  then show ?case by simp
next
  case (Cons a xs)
  show ?case
  proof (cases "a = c")
    case True
    with Cons.prems have "c \<notin> set xs" by simp
    with Cons.prems(4) have "map g xs = map f xs" by (intro map_cong) auto
    then have "sum_list (map g xs) = sum_list (map f xs)" by (rule arg_cong)
    with True Cons.prems(3) show ?thesis by simp
  next
    case False
    with Cons.prems have "c \<in> set xs" "distinct xs" "g a = f a" by auto
    with Cons.IH Cons.prems(3,4) show ?thesis by simp
  qed
qed

lemma free_cells_apply_move:
  assumes "c \<in> set (get_valid_moves s)"
  shows "free_cells (apply_move s c) < free_cells s"
  unfolding free_cells_def
proof (rule sum_list_update_less [OF distinct_col_indices])
  from assms show "c \<in> set col_indices" by (simp add: get_valid_moves_def)
  from assms have "tops s c < ROWS" by (simp add: get_valid_moves_def)
  then show "nat (ROWS - tops (apply_move s c) c) < nat (ROWS - tops s c)"
    by (simp add: apply_move_tops)
  show "\<And>y. y \<in> set col_indices \<Longrightarrow> y \<noteq> c \<Longrightarrow>
      nat (ROWS - tops (apply_move s c) y) = nat (ROWS - tops s y)"
    by (simp add: apply_move_tops)
qed

text \<open>
  \<^verbatim>\<open>alphabeta\<close> and its two sibling loops. \<open>max_loop s i \<dots> val\<close> is the state of the
  maximizing \<^verbatim>\<open>for\<close> loop before iteration \<open>i\<close>, with the current \<open>alpha\<close> and \<open>value\<close>;
  \<open>min_loop\<close> likewise with \<open>beta\<close>. \<open>maximizing\<close> is a C truth value. The depth is the
  source's \<open>int\<close>: the recursion stops at depth 0, at a terminal state and at a state
  without a valid column, and a negative depth only stops at the latter two. Every move
  fills one of the \<open>ROWS * COLS\<close> cells, so the calls nest at most that deep and
  \<open>depth - 1\<close> stays in the 32-bit range for every depth the program can pass.
\<close>

function alphabeta :: "state \<Rightarrow> int \<Rightarrow> int \<Rightarrow> int \<Rightarrow> int \<Rightarrow> int \<Rightarrow> int"
  and max_loop :: "state \<Rightarrow> nat \<Rightarrow> int \<Rightarrow> int \<Rightarrow> int \<Rightarrow> int \<Rightarrow> int \<Rightarrow> int"
  and min_loop :: "state \<Rightarrow> nat \<Rightarrow> int \<Rightarrow> int \<Rightarrow> int \<Rightarrow> int \<Rightarrow> int \<Rightarrow> int"
  where
  "alphabeta s depth alpha beta maximizing root_player =
     (if depth = 0 \<or> check_winner s \<noteq> 0 then evaluate_state s root_player
      else if length (get_valid_moves s) = 0 then evaluate_state s root_player
      else if maximizing \<noteq> 0 then max_loop s 0 depth alpha beta INT_MIN root_player
      else min_loop s 0 depth alpha beta INT_MAX root_player)"
| "max_loop s i depth alpha beta val root_player =
     (if i < length (get_valid_moves s) then
        (let child = apply_move (copy_state s) (get_valid_moves s ! i);
             score = alphabeta child (depth - 1) alpha beta 0 root_player;
             val' = (if score > val then score else val);
             alpha' = (if val' > alpha then val' else alpha)
         in if alpha' \<ge> beta then val'
            else max_loop s (i + 1) depth alpha' beta val' root_player)
      else val)"
| "min_loop s i depth alpha beta val root_player =
     (if i < length (get_valid_moves s) then
        (let child = apply_move (copy_state s) (get_valid_moves s ! i);
             score = alphabeta child (depth - 1) alpha beta 1 root_player;
             val' = (if score < val then score else val);
             beta' = (if val' < beta then val' else beta)
         in if alpha \<ge> beta' then val'
            else min_loop s (i + 1) depth alpha beta' val' root_player)
      else val)"
  by pat_completeness auto
termination
proof (relation "inv_image (less_than <*lex*> less_than)
    (\<lambda>x. case x of
       Inl (s, depth, alpha, beta, maximizing, root_player) \<Rightarrow> (free_cells s, 8)
     | Inr (Inl (s, i, depth, alpha, beta, val, root_player)) \<Rightarrow> (free_cells s, 7 - i)
     | Inr (Inr (s, i, depth, alpha, beta, val, root_player)) \<Rightarrow> (free_cells s, 7 - i))",
    goal_cases)
  case 1
  show ?case by (intro wf_inv_image wf_lex_prod wf_less_than)
next
  case 2
  show ?case by simp
next
  case 3
  then show ?case by simp
next
  case (4 s i depth alpha beta val root_player child)
  then have "get_valid_moves s ! i \<in> set (get_valid_moves s)" by simp
  from free_cells_apply_move [OF this] 4(2) show ?case by (simp add: copy_state_id)
next
  case (5 s i depth alpha beta val root_player)
  with length_valid_moves [of s] show ?case by simp
next
  case (6 s i depth alpha beta val root_player child)
  then have "get_valid_moves s ! i \<in> set (get_valid_moves s)" by simp
  from free_cells_apply_move [OF this] 6(2) show ?case by (simp add: copy_state_id)
next
  case (7 s i depth alpha beta val root_player)
  with length_valid_moves [of s] show ?case by simp
qed

declare alphabeta.simps [simp del] max_loop.simps [simp del] min_loop.simps [simp del]

text \<open>\<^verbatim>\<open>alphabeta_search\<close>: the loop over the root moves carries \<open>(best_move, best_value)\<close>.\<close>

fun search_loop :: "state \<Rightarrow> int \<Rightarrow> int \<Rightarrow> int list \<Rightarrow> int \<times> int \<Rightarrow> int \<times> int" where
  "search_loop root depth root_player [] (best_move, best_value) = (best_move, best_value)"
| "search_loop root depth root_player (m # ms) (best_move, best_value) =
     (let child = apply_move (copy_state root) m;
          val = alphabeta child (depth - 1) INT_MIN INT_MAX 0 root_player
      in if val > best_value then search_loop root depth root_player ms (m, val)
         else search_loop root depth root_player ms (best_move, best_value))"

definition alphabeta_search :: "state \<Rightarrow> int \<Rightarrow> int \<Rightarrow> int" where
  "alphabeta_search root depth root_player =
     fst (search_loop root depth root_player (get_valid_moves root) (- 1, INT_MIN))"

section \<open>The program: reading the input and printing the move\<close>

text \<open>
  Standard input is a sequence of tokens, each one what a single \<^verbatim>\<open>scanf("%d")\<close> call meets
  after the white space: \<open>Num n\<close> is an optionally signed decimal numeral of value \<open>n\<close>,
  \<open>Junk\<close> a piece that does not start a numeral (the text \<^verbatim>\<open>0abc\<close> is \<open>Num 0\<close> followed by
  \<open>Junk\<close>). \<^verbatim>\<open>scanf\<close> returns 1 exactly on a numeral; at the end of the input and at
  \<open>Junk\<close> it does not.

  The numeral is stored in a 32-bit \<^verbatim>\<open>int\<close>. A value in the range of \<^verbatim>\<open>int\<close> is stored as it
  is. For a value outside, ISO C leaves the conversion undefined; \<open>store_int\<close> follows the
  GNU C library on a platform with 64-bit \<^verbatim>\<open>long\<close>, which converts with \<^verbatim>\<open>strtol\<close>
  (saturating at the range of \<^verbatim>\<open>long\<close>) and keeps the low 32 bits: the numeral 4294967297
  is stored as 1, 4294967296 as 0, 2147483648 as \<open>INT_MIN\<close>.
\<close>

datatype token = is_Num: Num (the_num: int) | Junk

definition LONG_MIN :: int where
  "LONG_MIN = - 9223372036854775808"

definition LONG_MAX :: int where
  "LONG_MAX = 9223372036854775807"

definition store_int :: "int \<Rightarrow> int" where
  "store_int n =
     (let l = (if n < LONG_MIN then LONG_MIN else if LONG_MAX < n then LONG_MAX else n)
      in (l + 2147483648) mod 4294967296 - 2147483648)"

fun scanf_d :: "token list \<Rightarrow> (int \<times> token list) option" where
  "scanf_d (Num n # rest) = Some (store_int n, rest)"
| "scanf_d (Junk # rest) = None"
| "scanf_d [] = None"

text \<open>The messages written to the error channel, with their arguments.\<close>

datatype err_msg =
    Failed_player
  | Invalid_player int
  | Failed_board int int
  | No_valid_move

record outcome =
  exit_status :: int
  stdout :: string
  stderr :: "err_msg list"

definition EXIT_SUCCESS :: int where
  "EXIT_SUCCESS = 0"

definition EXIT_FAILURE :: int where
  "EXIT_FAILURE = 1"

text \<open>The reading loop of \<^verbatim>\<open>main\<close> over the cells in row-major order; \<open>Inl (i, j)\<close> is the
  failure to read \<open>board[i][j]\<close>.\<close>

fun read_board ::
  "(int \<times> int) list \<Rightarrow> token list \<Rightarrow> (int \<Rightarrow> int \<Rightarrow> int) \<Rightarrow> (int \<times> int) + (int \<Rightarrow> int \<Rightarrow> int)" where
  "read_board [] inp b = Inr b"
| "read_board ((i, j) # rest) inp b =
     (case scanf_d inp of
        None \<Rightarrow> Inl (i, j)
      | Some (v, inp') \<Rightarrow> read_board rest inp' (b(i := (b i)(j := v))))"

text \<open>The loop that initialises \<open>top\<close>: the number of non-zero cells of each column.\<close>

definition count_column :: "(int \<Rightarrow> int \<Rightarrow> int) \<Rightarrow> int \<Rightarrow> int" where
  "count_column b j = fold (\<lambda>i t. if b i j \<noteq> 0 then t + 1 else t) row_indices 0"

definition init_tops :: "(int \<Rightarrow> int \<Rightarrow> int) \<Rightarrow> int \<Rightarrow> int" where
  "init_tops b = fold (\<lambda>j t. t(j := count_column b j)) col_indices (\<lambda>j. 0)"

text \<open>Lines 231 to 260 of \<^verbatim>\<open>main\<close>: the root state, or the error reported. The local
  \<open>root_state\<close> starts uninitialised; every cell and height the program reads is written
  first.\<close>

definition read_root_state :: "token list \<Rightarrow> err_msg + state" where
  "read_root_state inp =
     (case scanf_d inp of
        None \<Rightarrow> Inl Failed_player
      | Some (this_player, inp') \<Rightarrow>
          if this_player \<noteq> 1 \<and> this_player \<noteq> 2 then Inl (Invalid_player this_player)
          else (case read_board grid_cells inp' (\<lambda>i j. 0) of
                  Inl (i, j) \<Rightarrow> Inl (Failed_board i j)
                | Inr b \<Rightarrow> Inr \<lparr>board = b, tops = init_tops b, player = this_player\<rparr>))"

text \<open>\<^verbatim>\<open>stack_name\<close>: \<^verbatim>\<open>'A' + i\<close> as a character.\<close>

definition stack_name :: "int \<Rightarrow> char" where
  "stack_name i = char_of (of_char CHR ''A'' + i)"

definition failure :: "err_msg \<Rightarrow> outcome" where
  "failure e = \<lparr>exit_status = EXIT_FAILURE, stdout = [], stderr = [e]\<rparr>"

text \<open>\<^verbatim>\<open>main\<close>. The first argument is the clock value that \<^verbatim>\<open>srand(time(NULL))\<close> reads;
  the second component of the result is the seed of the random generator left behind.
  The root player passed to the search is \<open>this_player\<close>, which is the player field of the
  root state.\<close>

definition main_model :: "nat \<Rightarrow> token list \<Rightarrow> outcome \<times> nat" where
  "main_model clock inp =
     (let seed = clock in
      (case read_root_state inp of
         Inl e \<Rightarrow> failure e
       | Inr root_state \<Rightarrow>
           (let best_move = alphabeta_search root_state MAX_DEPTH (player root_state) in
            if best_move < 0 then failure No_valid_move
            else \<lparr>exit_status = EXIT_SUCCESS, stdout = [stack_name best_move], stderr = []\<rparr>),
       seed))"

section \<open>Notions of the specification\<close>

text \<open>A line of the specification: four cells of the grid, starting at \<open>(i, j)\<close> and
  stepping by \<open>(di, dj)\<close>, that all hold \<open>p\<close>. The four forward directions are +col, +row,
  +row/+col and +row/-col.\<close>

definition in_grid :: "int \<Rightarrow> int \<Rightarrow> bool" where
  "in_grid i j = (0 \<le> i \<and> i < ROWS \<and> 0 \<le> j \<and> j < COLS)"

definition directions :: "(int \<times> int) list" where
  "directions = [(0, 1), (1, 0), (1, 1), (1, - 1)]"

definition four_from :: "state \<Rightarrow> int \<Rightarrow> int \<Rightarrow> int \<Rightarrow> int \<Rightarrow> int \<Rightarrow> bool" where
  "four_from s p i j di dj =
     list_all (\<lambda>k. in_grid (i + k * di) (j + k * dj) \<and> board s (i + k * di) (j + k * dj) = p)
       [0, 1, 2, 3]"

definition has_line :: "state \<Rightarrow> int \<Rightarrow> bool" where
  "has_line s p =
     list_ex (\<lambda>(i, j). list_ex (\<lambda>(di, dj). four_from s p i j di dj) directions) grid_cells"

text \<open>The cell \<open>(i, j)\<close> holds a stone and starts a line of that stone's value.\<close>

definition starts_line :: "state \<Rightarrow> int \<times> int \<Rightarrow> bool" where
  "starts_line s c =
     (case c of (i, j) \<Rightarrow>
        board s i j \<noteq> 0 \<and>
        list_ex (\<lambda>(di, dj). four_from s (board s i j) i j di dj) directions)"

text \<open>The number of cells of the grid that hold \<open>p\<close>.\<close>

definition stone_count :: "state \<Rightarrow> int \<Rightarrow> int" where
  "stone_count s p = int (length (filter (\<lambda>(i, j). board s i j = p) grid_cells))"

text \<open>Full, unpruned minimax to the given depth over the same move model and evaluator,
  as the specification describes it: the value of a node at depth 0, of a terminal node and
  of a node without moves is the evaluator's; otherwise it is the greatest (maximizing) or
  least (minimizing) value of the children.\<close>

function minimax :: "state \<Rightarrow> int \<Rightarrow> bool \<Rightarrow> int \<Rightarrow> int" where
  "minimax s depth maximizing root_player =
     (if depth = 0 \<or> is_terminal s \<or> get_valid_moves s = [] then evaluate_state s root_player
      else if maximizing
        then Max (set (map (\<lambda>m. minimax (apply_move s m) (depth - 1) False root_player)
                        (get_valid_moves s)))
        else Min (set (map (\<lambda>m. minimax (apply_move s m) (depth - 1) True root_player)
                        (get_valid_moves s))))"
  by pat_completeness auto
termination
  by (relation "measure (\<lambda>(s, depth, maximizing, root_player). free_cells s)")
     (simp_all add: free_cells_apply_move)

declare minimax.simps [simp del]

text \<open>The value the selector gives to the root move \<open>m\<close>: the search on the child at
  \<open>depth - 1\<close>, as a minimizing node, with the full window.\<close>

definition root_value :: "state \<Rightarrow> int \<Rightarrow> int \<Rightarrow> int \<Rightarrow> int" where
  "root_value s depth root_player m =
     alphabeta (apply_move s m) (depth - 1) INT_MIN INT_MAX 0 root_player"

text \<open>How a result \<open>r\<close> of a search with window \<open>(alpha, beta)\<close> relates to the exact value
  \<open>v\<close> when the result is not clipped to the window: exact strictly inside, an upper bound of
  \<open>v\<close> at or below \<open>alpha\<close>, a lower bound of \<open>v\<close> at or above \<open>beta\<close>.\<close>

definition soft_bound :: "int \<Rightarrow> int \<Rightarrow> int \<Rightarrow> int \<Rightarrow> bool" where
  "soft_bound alpha beta v r =
     ((r \<le> alpha \<longrightarrow> v \<le> r) \<and> (alpha < r \<and> r < beta \<longrightarrow> r = v) \<and> (beta \<le> r \<longrightarrow> r \<le> v))"

text \<open>The root state that \<^verbatim>\<open>main\<close> builds when the player id stored is \<open>p\<close> and the cell
  values stored are \<open>vs\<close> in row-major order, and the inputs that \<^verbatim>\<open>main\<close> reads to the end:
  a numeral stored as player id 1 or 2, followed by at least \<open>ROWS * COLS\<close> numerals.\<close>

definition store_cell :: "(int \<times> int) \<times> int \<Rightarrow> (int \<Rightarrow> int \<Rightarrow> int) \<Rightarrow> int \<Rightarrow> int \<Rightarrow> int" where
  "store_cell cv b = (case cv of ((i, j), v) \<Rightarrow> b(i := (b i)(j := v)))"

definition board_of_cells :: "int list \<Rightarrow> int \<Rightarrow> int \<Rightarrow> int" where
  "board_of_cells vs = fold store_cell (zip grid_cells vs) (\<lambda>i j. 0)"

definition init_state :: "int \<Rightarrow> int list \<Rightarrow> state" where
  "init_state p vs =
     \<lparr>board = board_of_cells vs, tops = init_tops (board_of_cells vs), player = p\<rparr>"

definition parse_input :: "token list \<Rightarrow> (int \<times> int list) option" where
  "parse_input inp =
     (case inp of
        Num p # rest \<Rightarrow>
          if (store_int p = 1 \<or> store_int p = 2) \<and> 42 \<le> length rest \<and>
             list_all is_Num (take 42 rest)
          then Some (store_int p, map (\<lambda>t. store_int (the_num t)) (take 42 rest)) else None
      | _ \<Rightarrow> None)"


text \<open>The stone values that own at least one line, and the boards on which every column
  height equals \<open>ROWS\<close>.\<close>

definition line_owners :: "state \<Rightarrow> int list" where
  "line_owners s =
     filter (\<lambda>q. q \<noteq> 0 \<and> has_line s q) (map (\<lambda>(i, j). board s i j) grid_cells)"

definition full_board :: "state \<Rightarrow> bool" where
  "full_board s = list_all (\<lambda>j. tops s j = ROWS) col_indices"

text \<open>Legal play: applying a sequence of columns, each valid when it is played.\<close>

fun play :: "state \<Rightarrow> int list \<Rightarrow> state option" where
  "play s [] = Some s"
| "play s (c # cs) =
     (if c \<in> set (get_valid_moves s) then play (apply_move s c) cs else None)"


section \<open>Example inputs\<close>

text \<open>The empty board; a board whose only stone floats at row 1 of column 0; a board whose
  only stone floats at row 5 of column 0; a board with a line of player 1 in row 0 and a
  line of player 2 in row 1. All are states that \<^verbatim>\<open>main\<close> builds from its input.\<close>

definition empty_cells :: "int list" where
  "empty_cells = replicate 42 0"

definition empty_state :: state where
  "empty_state = init_state 1 empty_cells"

definition float_state :: state where
  "float_state = init_state 1 (empty_cells[7 := 1])"

definition high_state :: state where
  "high_state = init_state 1 (empty_cells[35 := 1])"

definition two_lines_state :: state where
  "two_lines_state = init_state 1 ([1, 1, 1, 1, 0, 0, 0, 2, 2, 2, 2, 0, 0, 0] @ replicate 28 0)"

text \<open>A board with a line of player 1 only, and a full board without any line.\<close>

definition line_state :: state where
  "line_state = init_state 2 ([1, 1, 1, 1, 0, 0, 0, 2, 2, 2, 0, 0, 0, 0] @ replicate 28 0)"

definition draw_cells :: "int list" where
  "draw_cells =
     [1, 1, 2, 2, 1, 1, 2,
      2, 2, 1, 1, 2, 2, 1,
      1, 1, 2, 2, 1, 1, 2,
      2, 2, 1, 1, 2, 2, 1,
      1, 1, 2, 2, 1, 1, 2,
      2, 2, 1, 1, 2, 2, 1]"

definition draw_state :: state where
  "draw_state = init_state 1 draw_cells"

section \<open>Facts about the grid and the move model\<close>

lemma set_grid_cells: "set grid_cells = {(i, j). 0 \<le> i \<and> i < ROWS \<and> 0 \<le> j \<and> j < COLS}"
  by (auto simp: grid_cells_def set_col_indices set_row_indices)

lemma distinct_grid_cells: "distinct grid_cells"
  by (simp add: grid_cells_def col_indices_eq row_indices_eq)

lemma length_grid_cells: "length grid_cells = 42"
  by (simp add: grid_cells_def col_indices_eq row_indices_eq)

lemma filter_length_update:
  assumes "distinct xs" and "x \<in> set xs"
    and "\<And>y. y \<in> set xs \<Longrightarrow> y \<noteq> x \<Longrightarrow> Q y = P y"
  shows "length (filter Q xs) + (if P x then 1 else 0) = length (filter P xs) + (if Q x then 1 else 0)"
  using assms
proof (induction xs)
  case Nil
  then show ?case by simp
next
  case (Cons a xs)
  show ?case
  proof (cases "a = x")
    case True
    with Cons.prems have "x \<notin> set xs" by simp
    with Cons.prems(3) have "filter Q xs = filter P xs"
      by (intro filter_cong) auto
    with True show ?thesis by simp
  next
    case False
    with Cons.prems have "x \<in> set xs" "distinct xs" "Q a = P a" by auto
    with Cons.IH Cons.prems(3) show ?thesis by simp
  qed
qed

lemma occupied_apply_move:
  assumes "c \<in> set (get_valid_moves s)" and "0 \<le> tops s c" and "player s \<noteq> 0"
  shows "occupied (apply_move s c) = occupied s + (if board s (tops s c) c = 0 then 1 else 0)"
proof -
  let ?x = "(tops s c, c)"
  let ?P = "\<lambda>(i, j). board s i j \<noteq> 0"
  let ?Q = "\<lambda>(i, j). board (apply_move s c) i j \<noteq> 0"
  from assms have mem: "?x \<in> set grid_cells"
    by (simp add: set_grid_cells valid_move_iff)
  have same: "\<And>y. y \<in> set grid_cells \<Longrightarrow> y \<noteq> ?x \<Longrightarrow> ?Q y = ?P y"
    by (auto simp: apply_move_board)
  have "length (filter ?Q grid_cells) + (if ?P ?x then 1 else 0)
      = length (filter ?P grid_cells) + (if ?Q ?x then 1 else 0)"
    by (rule filter_length_update [OF distinct_grid_cells mem same])
  moreover have "?Q ?x" using assms(3) by (simp add: apply_move_board)
  ultimately show ?thesis by (simp add: occupied_def split: if_splits)
qed

lemma col_count_apply_move_other:
  "j \<noteq> c \<Longrightarrow> col_count (apply_move s c) j = col_count s j"
  by (simp add: col_count_def apply_move_board)

lemma col_count_apply_move_same:
  assumes "0 \<le> tops s c" and "tops s c < ROWS" and "player s \<noteq> 0"
  shows "col_count (apply_move s c) c = col_count s c + (if board s (tops s c) c = 0 then 1 else 0)"
proof -
  let ?P = "\<lambda>i. board s i c \<noteq> 0"
  let ?Q = "\<lambda>i. board (apply_move s c) i c \<noteq> 0"
  from assms have mem: "tops s c \<in> set row_indices"
    by (simp add: set_row_indices)
  have same: "\<And>y. y \<in> set row_indices \<Longrightarrow> y \<noteq> tops s c \<Longrightarrow> ?Q y = ?P y"
    by (simp add: apply_move_board)
  have "length (filter ?Q row_indices) + (if ?P (tops s c) then 1 else 0)
      = length (filter ?P row_indices) + (if ?Q (tops s c) then 1 else 0)"
    by (rule filter_length_update [OF distinct_row_indices mem same])
  moreover have "?Q (tops s c)" using assms(3) by (simp add: apply_move_board)
  ultimately show ?thesis by (simp add: col_count_def split: if_splits)
qed

lemma fold_count: "fold (\<lambda>i t. if P i then t + 1 else t) xs a = a + int (length (filter P xs))"
  by (induction xs arbitrary: a) simp_all

lemma count_column_eq: "count_column b j = int (length (filter (\<lambda>i. b i j \<noteq> 0) row_indices))"
  by (simp add: count_column_def fold_count)

lemma fold_store: "fold (\<lambda>j t. t(j := f j)) xs g = (\<lambda>j. if j \<in> set xs then f j else g j)"
  by (induction xs arbitrary: g) (auto simp: fun_eq_iff)

lemma init_tops_eq: "init_tops b j = (if j \<in> set col_indices then count_column b j else 0)"
  by (simp add: init_tops_def fold_store)

lemma init_state_tops:
  "tops (init_state p vs) j = (if j \<in> set col_indices then int (col_count (init_state p vs) j) else 0)"
  by (simp add: init_state_def init_tops_eq count_column_eq col_count_def)

lemma init_state_player: "player (init_state p vs) = p"
  by (simp add: init_state_def)

lemma init_state_tops_nonneg: "0 \<le> tops (init_state p vs) j"
  by (simp add: init_state_tops)

lemma height_inv_init: "height_inv (init_state p vs)"
  by (simp add: height_inv_def list_all_iff init_state_tops)

lemma height_inv_step:
  assumes "height_inv s" and "c \<in> set (get_valid_moves s)"
    and "board s (tops s c) c = 0" and "player s \<noteq> 0"
  shows "height_inv (apply_move s c)"
proof -
  from assms(2) have c: "0 \<le> c" "c < COLS" "tops s c < ROWS"
    by (simp_all add: valid_move_iff)
  from assms(1) have inv: "\<And>j. j \<in> set col_indices \<Longrightarrow> tops s j = int (col_count s j)"
    by (simp add: height_inv_def list_all_iff)
  from c have "c \<in> set col_indices" by (simp add: set_col_indices)
  then have nonneg: "0 \<le> tops s c" using inv by simp
  have "tops (apply_move s j') j = int (col_count (apply_move s j') j)"
    if "j \<in> set col_indices" "j' = c" for j j'
  proof (cases "j = c")
    case True
    with that inv assms(3) col_count_apply_move_same [OF nonneg c(3) assms(4)]
    show ?thesis by (simp add: apply_move_tops)
  next
    case False
    with that inv show ?thesis
      by (simp add: apply_move_tops col_count_apply_move_other)
  qed
  then show ?thesis by (simp add: height_inv_def list_all_iff)
qed

lemma packed_landing_empty:
  assumes "packed s" and "c \<in> set (get_valid_moves s)"
  shows "0 \<le> tops s c \<and> board s (tops s c) c = 0"
proof -
  from assms(2) have c: "c \<in> set col_indices" "tops s c < ROWS"
    by (simp_all add: valid_move_iff set_col_indices)
  with assms(1) have t: "0 \<le> tops s c"
    and cells: "\<And>i. i \<in> set row_indices \<Longrightarrow> (board s i c \<noteq> 0) = (i < tops s c)"
    by (auto simp: packed_def list_all_iff)
  from t c(2) have "tops s c \<in> set row_indices" by (simp add: set_row_indices)
  from cells [OF this] t show ?thesis by simp
qed

lemma packed_step:
  assumes "packed s" and "c \<in> set (get_valid_moves s)" and "player s \<noteq> 0"
  shows "packed (apply_move s c)"
proof -
  from assms(2) have c: "c \<in> set col_indices" "tops s c < ROWS"
    by (simp_all add: valid_move_iff set_col_indices)
  from assms(1) have p: "\<And>j. j \<in> set col_indices \<Longrightarrow>
      0 \<le> tops s j \<and> tops s j \<le> ROWS \<and> (\<forall>i\<in>set row_indices. (board s i j \<noteq> 0) = (i < tops s j))"
    by (simp add: packed_def list_all_iff)
  have "0 \<le> tops (apply_move s c) j \<and> tops (apply_move s c) j \<le> ROWS \<and>
        (\<forall>i\<in>set row_indices. (board (apply_move s c) i j \<noteq> 0) = (i < tops (apply_move s c) j))"
    if "j \<in> set col_indices" for j
  proof (cases "j = c")
    case True
    from p [OF that] True have t: "0 \<le> tops s c"
      and cells: "\<And>i. i \<in> set row_indices \<Longrightarrow> (board s i c \<noteq> 0) = (i < tops s c)"
      by simp_all
    have "(board (apply_move s c) i c \<noteq> 0) = (i < tops s c + 1)" if "i \<in> set row_indices" for i
    proof (cases "i = tops s c")
      case True
      with assms(3) show ?thesis by (simp add: apply_move_board)
    next
      case False
      with cells [OF that] show ?thesis by (simp add: apply_move_board) linarith
    qed
    with t c(2) True show ?thesis by (simp add: apply_move_tops)
  next
    case False
    with p [OF that] show ?thesis by (simp add: apply_move_tops apply_move_board)
  qed
  then show ?thesis by (simp add: packed_def list_all_iff)
qed

lemma count_below:
  assumes "0 \<le> t" and "t \<le> ROWS"
  shows "int (length (filter (\<lambda>i. i < t) row_indices)) = t"
proof -
  from assms have "t = 0 \<or> t = 1 \<or> t = 2 \<or> t = 3 \<or> t = 4 \<or> t = 5 \<or> t = 6"
    by (auto simp: ROWS_def)
  then show ?thesis by (auto simp: row_indices_eq)
qed

lemma packed_height_inv:
  assumes "packed s"
  shows "height_inv s"
proof -
  have "tops s j = int (col_count s j)" if "j \<in> set col_indices" for j
  proof -
    from assms that have t: "0 \<le> tops s j" "tops s j \<le> ROWS"
      and cells: "\<And>i. i \<in> set row_indices \<Longrightarrow> (board s i j \<noteq> 0) = (i < tops s j)"
      by (auto simp: packed_def list_all_iff)
    have "filter (\<lambda>i. board s i j \<noteq> 0) row_indices = filter (\<lambda>i. i < tops s j) row_indices"
      by (rule filter_cong) (simp_all add: cells)
    with count_below [OF t] show ?thesis by (simp add: col_count_def)
  qed
  then show ?thesis by (simp add: height_inv_def list_all_iff)
qed

lemma store_cell_apply:
  "store_cell ((i, j), v) b i' j' = (if i' = i \<and> j' = j then v else b i' j')"
  by (simp add: store_cell_def)

lemma fold_cells_other:
  "(i, j) \<notin> set cells \<Longrightarrow> fold store_cell (zip cells vs) b i j = b i j"
proof (induction cells arbitrary: vs b)
  case Nil
  then show ?case by simp
next
  case (Cons c cells)
  show ?case
  proof (cases vs)
    case Nil
    then show ?thesis by simp
  next
    case (Cons v vs')
    obtain ci cj where c: "c = (ci, cj)" by (cases c)
    from Cons.prems c have notin: "(i, j) \<notin> set cells" and ne: "\<not> (i = ci \<and> j = cj)"
      by auto
    have "fold store_cell (zip cells vs') (store_cell (c, v) b) i j = store_cell (c, v) b i j"
      by (rule Cons.IH [OF notin])
    also from ne c have "\<dots> = b i j" by (auto simp: store_cell_apply)
    finally show ?thesis using Cons by simp
  qed
qed

lemma fold_cells_nth:
  "distinct cells \<Longrightarrow> k < length cells \<Longrightarrow> k < length vs \<Longrightarrow> cells ! k = (i, j) \<Longrightarrow>
   fold store_cell (zip cells vs) b i j = vs ! k"
proof (induction cells arbitrary: vs b k)
  case Nil
  then show ?case by simp
next
  case (Cons c cells)
  from Cons.prems(3) obtain v vs' where vs: "vs = v # vs'" by (cases vs) auto
  show ?case
  proof (cases k)
    case 0
    with Cons.prems have notin: "(i, j) \<notin> set cells" and c: "c = (i, j)" by auto
    have "fold store_cell (zip cells vs') (store_cell (c, v) b) i j = store_cell (c, v) b i j"
      by (rule fold_cells_other [OF notin])
    also from c have "\<dots> = v" by (simp add: store_cell_apply)
    finally show ?thesis using vs 0 by simp
  next
    case (Suc k')
    with Cons.prems vs have "distinct cells" "k' < length cells" "k' < length vs'" "cells ! k' = (i, j)"
      by auto
    from Cons.IH [OF this] vs Suc show ?thesis by simp
  qed
qed

lemma grid_cells_eq:
  "grid_cells =
    [(0, 0), (0, 1), (0, 2), (0, 3), (0, 4), (0, 5), (0, 6),
     (1, 0), (1, 1), (1, 2), (1, 3), (1, 4), (1, 5), (1, 6),
     (2, 0), (2, 1), (2, 2), (2, 3), (2, 4), (2, 5), (2, 6),
     (3, 0), (3, 1), (3, 2), (3, 3), (3, 4), (3, 5), (3, 6),
     (4, 0), (4, 1), (4, 2), (4, 3), (4, 4), (4, 5), (4, 6),
     (5, 0), (5, 1), (5, 2), (5, 3), (5, 4), (5, 5), (5, 6)]"
  by (simp add: grid_cells_def col_indices_eq row_indices_eq)

lemma in_grid_cases:
  assumes "in_grid i j"
  shows "(i = 0 \<or> i = 1 \<or> i = 2 \<or> i = 3 \<or> i = 4 \<or> i = 5) \<and>
         (j = 0 \<or> j = 1 \<or> j = 2 \<or> j = 3 \<or> j = 4 \<or> j = 5 \<or> j = 6)"
  using assms unfolding in_grid_def ROWS_def COLS_def by arith

lemma grid_cells_nth:
  assumes "in_grid i j"
  shows "grid_cells ! nat (i * COLS + j) = (i, j)"
proof -
  from in_grid_cases [OF assms]
  have i: "i = 0 \<or> i = 1 \<or> i = 2 \<or> i = 3 \<or> i = 4 \<or> i = 5"
    and j: "j = 0 \<or> j = 1 \<or> j = 2 \<or> j = 3 \<or> j = 4 \<or> j = 5 \<or> j = 6" by simp_all
  from i show ?thesis
  proof (elim disjE)
    assume "i = 0" with j show ?thesis by (auto simp: grid_cells_eq COLS_def)
  next
    assume "i = 1" with j show ?thesis by (auto simp: grid_cells_eq COLS_def)
  next
    assume "i = 2" with j show ?thesis by (auto simp: grid_cells_eq COLS_def)
  next
    assume "i = 3" with j show ?thesis by (auto simp: grid_cells_eq COLS_def)
  next
    assume "i = 4" with j show ?thesis by (auto simp: grid_cells_eq COLS_def)
  next
    assume "i = 5" with j show ?thesis by (auto simp: grid_cells_eq COLS_def)
  qed
qed

lemma board_of_cells_nth:
  assumes "length vs = 42"
  shows "board_of_cells vs i j = (if in_grid i j then vs ! nat (i * COLS + j) else 0)"
proof (cases "in_grid i j")
  case True
  then have k: "nat (i * COLS + j) < 42"
    unfolding in_grid_def ROWS_def COLS_def by arith
  from fold_cells_nth [OF distinct_grid_cells _ _ grid_cells_nth [OF True], of vs] k assms True
  show ?thesis by (simp add: board_of_cells_def length_grid_cells)
next
  case False
  then have "(i, j) \<notin> set grid_cells" by (simp add: set_grid_cells in_grid_def)
  from fold_cells_other [OF this] False show ?thesis by (simp add: board_of_cells_def)
qed

lemma init_state_board:
  "length vs = 42 \<Longrightarrow>
   board (init_state p vs) i j = (if in_grid i j then vs ! nat (i * COLS + j) else 0)"
  by (simp add: init_state_def board_of_cells_nth)

section \<open>The root state built from the input\<close>

lemma store_cell_pair: "store_cell ((i, j), v) b = b(i := (b i)(j := v))"
  by (simp add: store_cell_def)

lemma store_int_id:
  assumes "INT_MIN \<le> n" and "n \<le> INT_MAX"
  shows "store_int n = n"
proof -
  from assms have "0 \<le> n + 2147483648" "n + 2147483648 < 4294967296"
    by (simp_all add: INT_MIN_def INT_MAX_def)
  then have "(n + 2147483648) mod 4294967296 = n + 2147483648" by simp
  with assms show ?thesis
    by (simp add: store_int_def Let_def LONG_MIN_def LONG_MAX_def INT_MIN_def INT_MAX_def)
qed


lemma store_int_small: "set vs \<subseteq> {0, 1, 2} \<Longrightarrow> map store_int vs = vs"
proof (rule map_idI)
  fix x assume "set vs \<subseteq> {0, 1, 2}" and "x \<in> set vs"
  then have "x = 0 \<or> x = 1 \<or> x = 2" by auto
  then show "store_int x = x"
    by (auto intro!: store_int_id simp: INT_MIN_def INT_MAX_def)
qed

lemma read_board_nums:
  "length vs = length cells \<Longrightarrow>
   read_board cells (map Num vs @ rest) b
     = Inr (fold store_cell (zip cells (map store_int vs)) b)"
proof (induction cells arbitrary: vs b)
  case Nil
  then show ?case by simp
next
  case (Cons c cells)
  then obtain v vs' where vs: "vs = v # vs'" by (cases vs) auto
  obtain i j where c: "c = (i, j)" by (cases c)
  from Cons.prems vs have len: "length vs' = length cells" by simp
  from vs c have "read_board (c # cells) (map Num vs @ rest) b
      = read_board cells (map Num vs' @ rest) (store_cell (c, store_int v) b)"
    by (simp add: store_cell_pair)
  also have "\<dots> = Inr (fold store_cell (zip cells (map store_int vs'))
      (store_cell (c, store_int v) b))"
    by (rule Cons.IH [OF len])
  also from vs have "\<dots> = Inr (fold store_cell (zip (c # cells) (map store_int vs)) b)"
    by simp
  finally show ?case .
qed

lemma read_root_state_stored:
  assumes "store_int p = 1 \<or> store_int p = 2" and "length vs = 42"
  shows "read_root_state (Num p # map Num vs @ rest)
     = Inr (init_state (store_int p) (map store_int vs))"
  using assms read_board_nums [of vs grid_cells rest "\<lambda>i j. 0"]
  by (auto simp: read_root_state_def init_state_def board_of_cells_def length_grid_cells)

lemma store_int_player: "p = 1 \<or> p = 2 \<Longrightarrow> store_int p = p"
  by (auto intro!: store_int_id simp: INT_MIN_def INT_MAX_def)

lemma read_root_state_nums:
  assumes "p = 1 \<or> p = 2" and "length vs = 42" and "set vs \<subseteq> {0, 1, 2}"
  shows "read_root_state (Num p # map Num vs @ rest) = Inr (init_state p vs)"
  using read_root_state_stored [of p vs rest] assms
  by (simp add: store_int_player store_int_small)

lemma read_root_state_shape:
  assumes "read_root_state inp = Inr s"
  shows "tops s = init_tops (board s) \<and> (player s = 1 \<or> player s = 2)"
  using assms
  by (auto simp: read_root_state_def split: option.splits if_splits sum.splits prod.splits)

lemma height_inv_read:
  assumes "read_root_state inp = Inr s"
  shows "height_inv s"
proof -
  from read_root_state_shape [OF assms] have "tops s = init_tops (board s)" by simp
  then show ?thesis
    by (simp add: height_inv_def list_all_iff init_tops_eq count_column_eq col_count_def)
qed

lemma play_packed:
  "packed s \<Longrightarrow> player s = 1 \<or> player s = 2 \<Longrightarrow> play s cs = Some s' \<Longrightarrow>
   packed s' \<and> (player s' = 1 \<or> player s' = 2)"
proof (induction cs arbitrary: s)
  case Nil
  then show ?case by simp
next
  case (Cons c cs)
  from Cons.prems(3) have c: "c \<in> set (get_valid_moves s)"
    and rest: "play (apply_move s c) cs = Some s'"
    by (simp_all split: if_splits)
  from Cons.prems(2) have "player s \<noteq> 0" by auto
  from packed_step [OF Cons.prems(1) c this] have "packed (apply_move s c)" .
  moreover from Cons.prems(2) have "player (apply_move s c) = 1 \<or> player (apply_move s c) = 2"
    by (auto simp: apply_move_player)
  ultimately show ?case using rest by (rule Cons.IH)
qed

section \<open>Evaluating the example inputs\<close>

lemma length_examples:
  "length empty_cells = 42" "length (empty_cells[k := v]) = 42"
  "length ([1, 1, 1, 1, 0, 0, 0, 2, 2, 2, 2, 0, 0, 0] @ replicate 28 (0::int)) = 42"
  by (simp_all add: empty_cells_def)

lemma small_examples:
  "set empty_cells \<subseteq> {0, 1, 2}" "set (empty_cells[k := 1]) \<subseteq> {0, 1, 2}"
  "set ([1, 1, 1, 1, 0, 0, 0, 2, 2, 2, 2, 0, 0, 0] @ replicate 28 (0::int)) \<subseteq> {0, 1, 2}"
  "set draw_cells \<subseteq> {0, 1, 2}"
proof -
  show e: "set empty_cells \<subseteq> {0, 1, 2}" by (simp add: empty_cells_def)
  have "set (empty_cells[k := 1]) \<subseteq> insert 1 (set empty_cells)"
    by (rule set_update_subset_insert)
  with e show "set (empty_cells[k := 1]) \<subseteq> {0, 1, 2}" by auto
  show "set ([1, 1, 1, 1, 0, 0, 0, 2, 2, 2, 2, 0, 0, 0] @ replicate 28 (0::int)) \<subseteq> {0, 1, 2}"
    by simp
  show "set draw_cells \<subseteq> {0, 1, 2}" by (simp add: draw_cells_def)
qed

lemmas example_simps =
  empty_state_def float_state_def high_state_def two_lines_state_def
  init_state_board init_state_tops init_state_player length_examples
  empty_cells_def in_grid_def col_count_def col_indices_eq row_indices_eq COLS_def ROWS_def

lemma float_vals:
  "tops float_state 0 = 1" "board float_state 1 0 = 1" "board float_state 0 0 = 0"
  "player float_state = 1" 
  "0 \<in> set (get_valid_moves float_state)"
  by (simp_all add: example_simps get_valid_moves_def)

lemma float_occ: "occupied float_state = 1"
  by (simp add: example_simps occupied_def grid_cells_eq)

lemma occ_float: "occupied (apply_move float_state 0) = 1"
  by (simp add: example_simps occupied_def grid_cells_eq apply_move_board)

lemma hi_float: "\<not> height_inv (apply_move float_state 0)"
  by (simp add: example_simps height_inv_def apply_move_board apply_move_tops)

lemma high_vals:
  "tops high_state 0 = 1" "board high_state 5 0 = 1" "board high_state 0 0 = 0"
  "board high_state 1 0 = 0"
  "player high_state = 1" "occupied high_state = 1"
  "0 \<in> set (get_valid_moves high_state)"
  "occupied (apply_move high_state 0) = 2"
  by (simp_all add: example_simps occupied_def grid_cells_eq apply_move_board get_valid_moves_def)

section \<open>Facts about the evaluator and the terminal detector\<close>

lemma count_loop_eq:
  "count_loop s rp cells (a, b) =
     (a + int (length (filter (\<lambda>(i, j). board s i j = rp) cells)),
      b + int (length (filter (\<lambda>(i, j). board s i j = 3 - rp) cells)))"
proof (induction cells arbitrary: a b)
  case Nil
  then show ?case by simp
next
  case (Cons c cells)
  obtain i j where c: "c = (i, j)" by (cases c)
  have "rp \<noteq> 3 - rp" by arith
  with Cons.IH c show ?case by auto
qed

lemma evaluate_state_eq:
  "evaluate_state s rp =
     (if check_winner s = rp then 100000
      else if check_winner s = 3 - rp then - 100000
      else if check_winner s = - 1 then 0
      else stone_count s rp - stone_count s (3 - rp))"
  by (simp add: evaluate_state_def Let_def count_loop_eq stone_count_def)

lemma four_from_unfold:
  "four_from s p i j di dj =
     (in_grid i j \<and> board s i j = p \<and>
      in_grid (i + di) (j + dj) \<and> board s (i + di) (j + dj) = p \<and>
      in_grid (i + 2 * di) (j + 2 * dj) \<and> board s (i + 2 * di) (j + 2 * dj) = p \<and>
      in_grid (i + 3 * di) (j + 3 * dj) \<and> board s (i + 3 * di) (j + 3 * dj) = p)"
  by (simp add: four_from_def conj_ac)

lemma four_horizontal:
  assumes "in_grid i j"
  shows "four_from s p i j 0 1 =
     (j + 3 < COLS \<and> p = board s i j \<and> p = board s i (j + 1) \<and> p = board s i (j + 2) \<and>
      p = board s i (j + 3))"
proof -
  from assms have "(in_grid i (j + 1) \<and> in_grid i (j + 2) \<and> in_grid i (j + 3)) = (j + 3 < COLS)"
    unfolding in_grid_def by arith
  with assms show ?thesis unfolding four_from_unfold by auto
qed

lemma four_vertical:
  assumes "in_grid i j"
  shows "four_from s p i j 1 0 =
     (i + 3 < ROWS \<and> p = board s i j \<and> p = board s (i + 1) j \<and> p = board s (i + 2) j \<and>
      p = board s (i + 3) j)"
proof -
  from assms have "(in_grid (i + 1) j \<and> in_grid (i + 2) j \<and> in_grid (i + 3) j) = (i + 3 < ROWS)"
    unfolding in_grid_def by arith
  with assms show ?thesis unfolding four_from_unfold by auto
qed

lemma four_diag_right:
  assumes "in_grid i j"
  shows "four_from s p i j 1 1 =
     (i + 3 < ROWS \<and> j + 3 < COLS \<and> p = board s i j \<and> p = board s (i + 1) (j + 1) \<and>
      p = board s (i + 2) (j + 2) \<and> p = board s (i + 3) (j + 3))"
proof -
  from assms have "(in_grid (i + 1) (j + 1) \<and> in_grid (i + 2) (j + 2) \<and> in_grid (i + 3) (j + 3))
      = (i + 3 < ROWS \<and> j + 3 < COLS)"
    unfolding in_grid_def by arith
  with assms show ?thesis unfolding four_from_unfold by auto
qed

lemma four_diag_left:
  assumes "in_grid i j"
  shows "four_from s p i j 1 (- 1) =
     (i + 3 < ROWS \<and> j - 3 \<ge> 0 \<and> p = board s i j \<and> p = board s (i + 1) (j - 1) \<and>
      p = board s (i + 2) (j - 2) \<and> p = board s (i + 3) (j - 3))"
proof -
  from assms have "(in_grid (i + 1) (j - 1) \<and> in_grid (i + 2) (j - 2) \<and> in_grid (i + 3) (j - 3))
      = (i + 3 < ROWS \<and> j - 3 \<ge> 0)"
    unfolding in_grid_def by arith
  with assms show ?thesis unfolding four_from_unfold by auto
qed

lemma check_cell_iff:
  assumes "in_grid i j"
  shows "(check_cell s i j = Some p) =
         (p \<noteq> 0 \<and> list_ex (\<lambda>(di, dj). four_from s p i j di dj) directions)"
proof -
  have dirs: "list_ex (\<lambda>(di, dj). four_from s p i j di dj) directions =
      (four_from s p i j 0 1 \<or> four_from s p i j 1 0 \<or> four_from s p i j 1 1 \<or>
       four_from s p i j 1 (- 1))"
    by (simp add: directions_def)
  show ?thesis
    unfolding dirs four_horizontal [OF assms] four_vertical [OF assms]
      four_diag_right [OF assms] four_diag_left [OF assms] check_cell_def Let_def
    by (cases "board s i j = p") auto
qed

lemma scan_cells_Some:
  "scan_cells s cells = Some p \<Longrightarrow> \<exists>(i, j)\<in>set cells. check_cell s i j = Some p"
  by (induction cells) (auto split: option.splits)

lemma scan_cells_None:
  "(scan_cells s cells = None) = (\<forall>(i, j)\<in>set cells. check_cell s i j = None)"
  by (induction cells) (auto split: option.splits)

lemma in_grid_cells: "((i, j) \<in> set grid_cells) = in_grid i j"
  by (simp add: set_grid_cells in_grid_def)

lemma has_line_iff:
  "(p \<noteq> 0 \<and> has_line s p) = (\<exists>(i, j)\<in>set grid_cells. check_cell s i j = Some p)"
proof -
  have "(\<exists>(i, j)\<in>set grid_cells. check_cell s i j = Some p) =
        (\<exists>(i, j)\<in>set grid_cells. p \<noteq> 0 \<and> list_ex (\<lambda>(di, dj). four_from s p i j di dj) directions)"
    by (rule bex_cong) (auto simp: in_grid_cells check_cell_iff)
  then show ?thesis by (auto simp: has_line_def list_ex_iff)
qed

lemma check_winner_line:
  assumes "check_winner s = p" and "p \<noteq> 0" and "p \<noteq> - 1"
  shows "has_line s p"
proof -
  from assms have "scan_cells s grid_cells = Some p"
    by (auto simp: check_winner_def split: option.splits if_splits)
  from scan_cells_Some [OF this] assms(2) has_line_iff [of p s] show ?thesis by simp
qed

lemma check_winner_only_line:
  assumes "has_line s p" and "p \<noteq> 0" and "\<And>q. q \<noteq> 0 \<Longrightarrow> q \<noteq> p \<Longrightarrow> \<not> has_line s q"
  shows "check_winner s = p"
proof -
  from assms(1,2) has_line_iff [of p s]
  have "\<exists>(i, j)\<in>set grid_cells. check_cell s i j = Some p" by simp
  then have "scan_cells s grid_cells \<noteq> None" unfolding scan_cells_None by fastforce
  then obtain q where q: "scan_cells s grid_cells = Some q" by auto
  from scan_cells_Some [OF q] has_line_iff [of q s] have "q \<noteq> 0 \<and> has_line s q" by simp
  with assms(3) [of q] have "q = p" by auto
  with q show ?thesis by (simp add: check_winner_def)
qed

lemma check_winner_no_line:
  assumes "\<And>q. q \<noteq> 0 \<Longrightarrow> \<not> has_line s q"
  shows "check_winner s = (if \<exists>j\<in>set col_indices. tops s j < ROWS then 0 else - 1)"
proof -
  have "scan_cells s grid_cells = None"
  proof (cases "scan_cells s grid_cells")
    case None
    then show ?thesis .
  next
    case (Some q)
    from scan_cells_Some [OF Some] has_line_iff [of q s] have "q \<noteq> 0 \<and> has_line s q" by simp
    with assms [of q] show ?thesis by simp
  qed
  then show ?thesis by (simp add: check_winner_def list_ex_iff)
qed

lemma has_line_on_board:
  assumes "has_line s q"
  shows "q \<in> set (map (\<lambda>(i, j). board s i j) grid_cells)"
proof -
  from assms obtain i j di dj where ij: "(i, j) \<in> set grid_cells" and "four_from s q i j di dj"
    by (auto simp: has_line_def list_ex_iff)
  then have "board s i j = q" by (simp add: four_from_unfold)
  with ij show ?thesis by force
qed

lemma line_owners_iff: "(q \<in> set (line_owners s)) = (q \<noteq> 0 \<and> has_line s q)"
  using has_line_on_board [of s q] by (auto simp: line_owners_def)

lemma check_cell_cases: "check_cell s i j = None \<or> check_cell s i j = Some (board s i j)"
  by (simp add: check_cell_def Let_def)

lemma check_cell_starts:
  assumes "in_grid i j"
  shows "check_cell s i j = (if starts_line s (i, j) then Some (board s i j) else None)"
  using check_cell_iff [OF assms, of s "board s i j"] check_cell_cases [of s i j]
  by (auto simp: starts_line_def)

lemma scan_cells_find:
  "\<forall>c\<in>set cells. in_grid (fst c) (snd c) \<Longrightarrow>
   scan_cells s cells =
     (case find (starts_line s) cells of Some (i, j) \<Rightarrow> Some (board s i j) | None \<Rightarrow> None)"
proof (induction cells)
  case Nil
  then show ?case by simp
next
  case (Cons c cells)
  obtain i j where c: "c = (i, j)" by (cases c)
  with Cons.prems have "in_grid i j" by simp
  from check_cell_starts [OF this, of s] Cons c show ?case by simp
qed

lemma check_winner_first:
  "check_winner s =
     (case find (starts_line s) grid_cells of
        Some (i, j) \<Rightarrow> board s i j
      | None \<Rightarrow> if get_valid_moves s = [] then - 1 else 0)"
proof -
  have "\<forall>c\<in>set grid_cells. in_grid (fst c) (snd c)"
    by (auto simp: in_grid_cells [symmetric])
  from scan_cells_find [OF this, of s]
  have "scan_cells s grid_cells =
      (case find (starts_line s) grid_cells of Some (i, j) \<Rightarrow> Some (board s i j) | None \<Rightarrow> None)" .
  moreover have "list_ex (\<lambda>j. tops s j < ROWS) col_indices = (get_valid_moves s \<noteq> [])"
    by (auto simp: get_valid_moves_def list_ex_iff filter_empty_conv)
  ultimately show ?thesis
    by (simp add: check_winner_def split: option.splits)
qed

lemma grid_cells_row_major:
  "sorted_wrt (\<lambda>a b. fst a < fst b \<or> (fst a = fst b \<and> snd a < snd b)) grid_cells"
  by (simp add: grid_cells_eq)

lemma length_more_examples:
  "length [1, 1, 2, 2, 1, 1, 2,
      2, 2, 1, 1, 2, 2, 1,
      1, 1, 2, 2, 1, 1, 2,
      2, 2, 1, 1, 2, 2, 1,
      1, 1, 2, 2, 1, 1, 2,
      2, 2, 1, 1, 2, 2, (1::int)] = 42"
  "length ([1, 1, 1, 1, 0, 0, 0, 2, 2, 2, 0, 0, 0, 0] @ replicate 28 (0::int)) = 42"
  by simp_all

lemmas eval_simps =
  example_simps draw_state_def draw_cells_def line_state_def length_more_examples

lemmas line_simps = has_line_def four_from_unfold directions_def grid_cells_eq

lemma line_state_vals:
  "check_winner line_state = 1"
  "has_line line_state 1"
  "\<not> has_line line_state 2"
  by (simp_all add: eval_simps line_simps check_winner_def check_cell_def Let_def)

lemma line_state_owners: "set (line_owners line_state) = {1}"
  by (simp add: line_owners_def eval_simps line_simps)

lemma two_lines_vals:
  "check_winner two_lines_state = 1"
  "has_line two_lines_state 1"
  "has_line two_lines_state 2"
  by (simp_all add: eval_simps line_simps check_winner_def check_cell_def Let_def)

lemma draw_state_vals:
  "check_winner draw_state = - 1"
  "line_owners draw_state = []"
  "full_board draw_state"
  by (simp_all add: eval_simps line_simps check_winner_def check_cell_def Let_def
      line_owners_def full_board_def)

lemma empty_state_vals:
  "check_winner empty_state = 0"
  "line_owners empty_state = []"
  "get_valid_moves empty_state \<noteq> []"
  by (simp_all add: eval_simps line_simps check_winner_def check_cell_def Let_def
      line_owners_def get_valid_moves_def)

section \<open>Claims about the move model\<close>

text \<open>
  C5 (amended). For a valid column \<open>c\<close> whose height is not negative, whose landing cell
  \<open>board[top[c]][c]\<close> is empty, and a mover 1 or 2: \<^verbatim>\<open>apply_move\<close> yields exactly one more
  occupied cell, raises the height of \<open>c\<close> by exactly 1, writes the mover's stone on the
  landing cell, leaves every other cell and every other height unchanged, and switches
  the player to the other one.
\<close>

theorem apply_move_frame:
  assumes "c \<in> set (get_valid_moves s)" and "0 \<le> tops s c"
    and "board s (tops s c) c = 0" and "player s = 1 \<or> player s = 2"
  shows "occupied (apply_move s c) = occupied s + 1 \<and>
         tops (apply_move s c) c = tops s c + 1 \<and>
         board (apply_move s c) (tops s c) c = player s \<and>
         (\<forall>j. j \<noteq> c \<longrightarrow> tops (apply_move s c) j = tops s j) \<and>
         (\<forall>i j. (i, j) \<noteq> (tops s c, c) \<longrightarrow> board (apply_move s c) i j = board s i j) \<and>
         player (apply_move s c) = 3 - player s \<and>
         (player (apply_move s c) = 1 \<or> player (apply_move s c) = 2) \<and>
         player (apply_move s c) \<noteq> player s"
proof -
  from assms(4) have "player s \<noteq> 0" by auto
  from occupied_apply_move [OF assms(1,2) this] assms(3)
  have "occupied (apply_move s c) = occupied s + 1" by simp
  moreover from assms(4)
  have "(player (apply_move s c) = 1 \<or> player (apply_move s c) = 2) \<and>
        player (apply_move s c) \<noteq> player s"
    unfolding apply_move_player by arith
  ultimately show ?thesis
    by (simp add: apply_move_tops apply_move_board apply_move_player)
qed

text \<open>The amended C5 on the empty board, column 3.\<close>

theorem apply_move_frame_witness:
  "3 \<in> set (get_valid_moves empty_state) \<and> 0 \<le> tops empty_state 3 \<and>
   board empty_state (tops empty_state 3) 3 = 0 \<and>
   (player empty_state = 1 \<or> player empty_state = 2) \<and>
   occupied empty_state = 0 \<and>
   occupied (apply_move empty_state 3) = 1 \<and>
   tops (apply_move empty_state 3) 3 = 1 \<and>
   board (apply_move empty_state 3) 0 3 = 1 \<and>
   player (apply_move empty_state 3) = 2"
proof -
  have h1: "3 \<in> set (get_valid_moves empty_state)"
    by (simp add: example_simps get_valid_moves_def)
  have h2: "0 \<le> tops empty_state 3"
    by (simp add: example_simps)
  have h3: "board empty_state (tops empty_state 3) 3 = 0"
    by (simp add: example_simps)
  have h4: "player empty_state = 1 \<or> player empty_state = 2"
    by (simp add: example_simps)
  have t: "tops empty_state 3 = 0" "player empty_state = 1"
    by (simp_all add: example_simps)
  have o: "occupied empty_state = 0"
    by (simp add: example_simps occupied_def grid_cells_eq)
  from apply_move_frame [OF h1 h2 h3 h4] h1 h2 h3 h4 t o show ?thesis by simp
qed

text \<open>
  C5 as stated fails: the input with player 1 and a single stone at row 1 of column 0 is
  read into \<open>float_state\<close>, where column 0 has height 1 and is valid; the move on column 0
  lands on the stone and the board still has one occupied cell.
\<close>

theorem apply_move_frame_counterexample:
  "read_root_state (Num 1 # map Num (empty_cells[7 := 1])) = Inr float_state \<and>
   0 \<in> set (get_valid_moves float_state) \<and>
   tops float_state 0 < ROWS \<and>
   occupied float_state = 1 \<and>
   occupied (apply_move float_state 0) \<noteq> occupied float_state + 1"
proof -
  have "read_root_state (Num 1 # map Num (empty_cells[7 := 1]) @ []) = Inr float_state"
    unfolding float_state_def by (rule read_root_state_nums) (simp_all add: length_examples small_examples)
  then show ?thesis
    by (simp add: float_vals float_occ occ_float ROWS_def)
qed

text \<open>
  C10 (amended). For a valid column \<open>c\<close> with a height that is not negative and a mover 1
  or 2, \<^verbatim>\<open>apply_move\<close> raises the number of occupied cells by exactly 1 iff the landing cell
  \<open>board[top[c]][c]\<close> is empty; when the landing cell holds a stone, the move overwrites it
  and the number of occupied cells stays the same. \<^verbatim>\<open>main\<close> accepts every board of 42
  readable cells without checking how the columns are packed and sets the height of a
  column to its number of stones (cells stored as non-zero), so this happens for an input
  column whose cell at the row equal to its number of stones holds a stone.
\<close>

theorem apply_move_occupied_iff:
  assumes "c \<in> set (get_valid_moves s)" and "0 \<le> tops s c"
    and "player s = 1 \<or> player s = 2"
  shows "((occupied (apply_move s c) = occupied s + 1) = (board s (tops s c) c = 0)) \<and>
         (board s (tops s c) c \<noteq> 0 \<longrightarrow>
            occupied (apply_move s c) = occupied s \<and>
            board (apply_move s c) (tops s c) c = player s) \<and>
         (\<forall>p vs rest. (p = 1 \<or> p = 2) \<and> length vs = 42 \<longrightarrow>
            read_root_state (Num p # map Num vs @ rest)
              = Inr (init_state p (map store_int vs)) \<and>
            tops (init_state p (map store_int vs)) c
              = int (col_count (init_state p (map store_int vs)) c) \<and>
            tops (init_state p vs) c = int (col_count (init_state p vs) c))"
proof -
  from assms(3) have "player s \<noteq> 0" by auto
  from occupied_apply_move [OF assms(1,2) this]
  have "((occupied (apply_move s c) = occupied s + 1) = (board s (tops s c) c = 0)) \<and>
        (board s (tops s c) c \<noteq> 0 \<longrightarrow>
           occupied (apply_move s c) = occupied s \<and>
           board (apply_move s c) (tops s c) c = player s)"
    by (simp add: apply_move_board)
  moreover from assms(1) have "c \<in> set col_indices"
    by (simp add: valid_move_iff set_col_indices)
  then have "tops (init_state p vs) c = int (col_count (init_state p vs) c)" for p vs
    by (simp add: init_state_tops)
  moreover have "read_root_state (Num p # map Num vs @ rest)
      = Inr (init_state p (map store_int vs))" if "p = 1 \<or> p = 2" "length vs = 42" for p vs rest
    using read_root_state_stored [of p vs rest] that by (simp add: store_int_player)
  ultimately show ?thesis by simp
qed

text \<open>The amended C10 on the input with a single stone at row 1 of column 0: the move on
  column 0 overwrites that stone.\<close>

theorem apply_move_occupied_iff_witness:
  "0 \<in> set (get_valid_moves float_state) \<and> 0 \<le> tops float_state 0 \<and>
   (player float_state = 1 \<or> player float_state = 2) \<and>
   board float_state (tops float_state 0) 0 \<noteq> 0 \<and>
   occupied (apply_move float_state 0) = occupied float_state \<and>
   read_root_state (Num 1 # map Num (empty_cells[7 := 1]) @ []) = Inr float_state"
proof -
  have h1: "0 \<in> set (get_valid_moves float_state)" by (simp add: float_vals)
  have h2: "0 \<le> tops float_state 0" by (simp add: float_vals)
  have h3: "player float_state = 1 \<or> player float_state = 2" by (simp add: float_vals)
  have l: "board float_state (tops float_state 0) 0 \<noteq> 0" by (simp add: float_vals)
  note inst = apply_move_occupied_iff [OF h1 h2 h3]
  from inst l have same: "occupied (apply_move float_state 0) = occupied float_state"
    by blast
  from inst have "\<forall>p vs rest. (p = 1 \<or> p = 2) \<and> length vs = 42 \<longrightarrow>
      read_root_state (Num p # map Num vs @ rest) = Inr (init_state p (map store_int vs))"
    by blast
  from this [rule_format, of 1 "empty_cells[7 := 1]" "[]"]
  have "read_root_state (Num 1 # map Num (empty_cells[7 := 1]) @ []) = Inr float_state"
    by (simp add: float_state_def length_examples store_int_small small_examples)
  with h1 h2 h3 l same show ?thesis by blast
qed

text \<open>
  C10 as stated fails in its second half: the input with a single stone at row 5 of
  column 0 has a stone above an empty cell in that column, yet the move on column 0 lands
  on the empty cell of row 1, overwrites nothing and raises the count from 1 to 2.
\<close>

theorem stone_above_gap_counterexample:
  "read_root_state (Num 1 # map Num (empty_cells[35 := 1])) = Inr high_state \<and>
   board high_state 5 0 \<noteq> 0 \<and> board high_state 0 0 = 0 \<and>
   0 \<in> set (get_valid_moves high_state) \<and>
   board high_state (tops high_state 0) 0 = 0 \<and>
   occupied (apply_move high_state 0) = occupied high_state + 1"
proof -
  have "read_root_state (Num 1 # map Num (empty_cells[35 := 1]) @ []) = Inr high_state"
    unfolding high_state_def by (rule read_root_state_nums) (simp_all add: length_examples small_examples)
  then show ?thesis
    by (simp add: high_vals)
qed

text \<open>
  C6 (amended). The height invariant (every height equals the number of stones of its
  column) holds for the root state that \<^verbatim>\<open>main\<close> builds from any input it reads to the
  end. \<^verbatim>\<open>apply_move\<close> on a valid column preserves it whenever the landing cell is empty and
  the mover is not 0. In a state whose columns are packed from row 0 upward, with mover 1
  or 2, every landing cell of a valid column is empty, and every state reached by legal
  play is packed again and satisfies the height invariant.
\<close>

theorem height_inv_preserved:
  "(read_root_state inp = Inr root \<longrightarrow> height_inv root) \<and>
   (height_inv s \<and> c \<in> set (get_valid_moves s) \<and> board s (tops s c) c = 0 \<and> player s \<noteq> 0 \<longrightarrow>
      height_inv (apply_move s c)) \<and>
   (packed s \<and> c \<in> set (get_valid_moves s) \<longrightarrow> board s (tops s c) c = 0) \<and>
   (packed s \<and> (player s = 1 \<or> player s = 2) \<and> play s cs = Some s' \<longrightarrow>
      packed s' \<and> height_inv s')"
proof (intro conjI impI)
  assume "read_root_state inp = Inr root"
  then show "height_inv root" by (rule height_inv_read)
next
  assume "height_inv s \<and> c \<in> set (get_valid_moves s) \<and> board s (tops s c) c = 0 \<and> player s \<noteq> 0"
  then show "height_inv (apply_move s c)" by (simp add: height_inv_step)
next
  assume "packed s \<and> c \<in> set (get_valid_moves s)"
  then show "board s (tops s c) c = 0" by (simp add: packed_landing_empty)
next
  assume a: "packed s \<and> (player s = 1 \<or> player s = 2) \<and> play s cs = Some s'"
  then have "packed s" "player s = 1 \<or> player s = 2" "play s cs = Some s'" by simp_all
  from play_packed [OF this] show "packed s'" by simp
  then show "height_inv s'" by (rule packed_height_inv)
qed

text \<open>The amended C6 on the input with a floating stone (initial state) and on the empty
  board, where column 3 is played twice.\<close>

theorem height_inv_preserved_witness:
  "read_root_state (Num 1 # map Num (empty_cells[7 := 1])) = Inr float_state \<and>
   height_inv float_state \<and>
   height_inv empty_state \<and> 3 \<in> set (get_valid_moves empty_state) \<and>
   board empty_state (tops empty_state 3) 3 = 0 \<and> player empty_state \<noteq> 0 \<and>
   height_inv (apply_move empty_state 3) \<and>
   packed empty_state \<and> (player empty_state = 1 \<or> player empty_state = 2) \<and>
   play empty_state [3, 3] = Some (apply_move (apply_move empty_state 3) 3) \<and>
   packed (apply_move (apply_move empty_state 3) 3) \<and>
   height_inv (apply_move (apply_move empty_state 3) 3)"
proof -
  have r: "read_root_state (Num 1 # map Num (empty_cells[7 := 1])) = Inr float_state"
    using read_root_state_nums [of 1 "empty_cells[7 := 1]" "[]"]
    by (simp add: float_state_def length_examples small_examples)
  have p: "packed empty_state"
    by (simp add: example_simps packed_def)
  have v: "3 \<in> set (get_valid_moves empty_state)"
    by (simp add: example_simps get_valid_moves_def)
  have v': "3 \<in> set (get_valid_moves (apply_move empty_state 3))"
    by (simp add: valid_move_iff apply_move_tops example_simps)
  have l: "board empty_state (tops empty_state 3) 3 = 0"
    by (simp add: example_simps)
  have pl: "player empty_state = 1"
    by (simp add: example_simps)
  have hi: "height_inv empty_state"
    by (simp add: example_simps height_inv_def)
  from v v' have play: "play empty_state [3, 3] = Some (apply_move (apply_move empty_state 3) 3)"
    by simp
  note inst = height_inv_preserved [of "Num 1 # map Num (empty_cells[7 := 1])" float_state
      empty_state 3 "[3, 3]" "apply_move (apply_move empty_state 3) 3"]
  from inst r have c1: "height_inv float_state" by blast
  from inst hi v l pl have c2: "height_inv (apply_move empty_state 3)" by simp
  from inst p pl play
  have c3: "packed (apply_move (apply_move empty_state 3) 3) \<and>
            height_inv (apply_move (apply_move empty_state 3) 3)" by simp
  from r c1 hi v l pl c2 p play c3 show ?thesis by simp
qed

text \<open>
  C6 as stated fails: the root state built from the input with a single stone at row 1 of
  column 0 satisfies the height invariant, column 0 is valid, and after \<^verbatim>\<open>apply_move\<close> on
  column 0 the height is 2 while the column holds one stone.
\<close>

theorem height_inv_counterexample:
  "read_root_state (Num 1 # map Num (empty_cells[7 := 1])) = Inr float_state \<and>
   height_inv float_state \<and>
   0 \<in> set (get_valid_moves float_state) \<and>
   \<not> height_inv (apply_move float_state 0)"
proof -
  have "read_root_state (Num 1 # map Num (empty_cells[7 := 1]) @ []) = Inr float_state"
    unfolding float_state_def by (rule read_root_state_nums) (simp_all add: length_examples small_examples)
  moreover have "height_inv float_state"
    unfolding float_state_def by (rule height_inv_init)
  ultimately show ?thesis
    by (simp add: float_vals hi_float)
qed

section \<open>Claims about the terminal detector and the evaluator\<close>

text \<open>
  C3 (amended). For every state and \<open>p\<close> in \<open>{1, 2}\<close>: if \<^verbatim>\<open>check_winner\<close> returns \<open>p\<close>
  then some cell of the grid starts four consecutive cells of \<open>p\<close>'s stones within bounds
  along one of the four forward directions; if \<open>p\<close> is the only stone value that owns such
  a line, \<^verbatim>\<open>check_winner\<close> returns \<open>p\<close>; whenever some value owns a line, the value returned
  owns one. If no line exists, it returns Draw (-1) when every column height equals
  \<open>ROWS\<close> and None (0) when some column is below \<open>ROWS\<close>. In every state the value returned
  is the stone on the first cell, in row-major order (rows ascending, columns ascending
  within a row), that holds a stone and starts a line of that stone's value; when no cell
  does, it is -1 if no column is below \<open>ROWS\<close> and 0 otherwise.
\<close>

theorem check_winner_characterisation:
  assumes "p = 1 \<or> p = 2"
  shows "(check_winner s = p \<longrightarrow> has_line s p) \<and>
         (set (line_owners s) = {p} \<longrightarrow> check_winner s = p) \<and>
         (line_owners s \<noteq> [] \<longrightarrow> check_winner s \<in> set (line_owners s)) \<and>
         (line_owners s = [] \<and> full_board s \<longrightarrow> check_winner s = - 1) \<and>
         (line_owners s = [] \<and> get_valid_moves s \<noteq> [] \<longrightarrow> check_winner s = 0) \<and>
         check_winner s =
           (case find (starts_line s) grid_cells of
              Some (i, j) \<Rightarrow> board s i j
            | None \<Rightarrow> if get_valid_moves s = [] then - 1 else 0) \<and>
         sorted_wrt (\<lambda>a b. fst a < fst b \<or> (fst a = fst b \<and> snd a < snd b)) grid_cells \<and>
         set grid_cells = {(i, j). in_grid i j}"
proof (intro conjI impI)
  assume "check_winner s = p"
  with assms show "has_line s p" by (intro check_winner_line) auto
next
  assume a: "set (line_owners s) = {p}"
  then have "p \<in> set (line_owners s)" by simp
  then have p: "p \<noteq> 0" "has_line s p" by (simp_all add: line_owners_iff)
  have "\<not> has_line s q" if "q \<noteq> 0" "q \<noteq> p" for q
  proof
    assume "has_line s q"
    with that(1) have "q \<in> set (line_owners s)" by (simp add: line_owners_iff)
    with a that(2) show False by simp
  qed
  with p show "check_winner s = p" by (intro check_winner_only_line)
next
  assume "line_owners s \<noteq> []"
  then obtain q where "q \<in> set (line_owners s)" by (cases "line_owners s") auto
  then have "q \<noteq> 0 \<and> has_line s q" by (simp add: line_owners_iff)
  with has_line_iff [of q s] have "\<exists>(i, j)\<in>set grid_cells. check_cell s i j = Some q" by simp
  then have "scan_cells s grid_cells \<noteq> None" unfolding scan_cells_None by fastforce
  then obtain r where r: "scan_cells s grid_cells = Some r" by auto
  from scan_cells_Some [OF r] has_line_iff [of r s] have "r \<noteq> 0 \<and> has_line s r" by simp
  with r show "check_winner s \<in> set (line_owners s)"
    by (simp add: check_winner_def line_owners_iff)
next
  assume a: "line_owners s = [] \<and> full_board s"
  then have "\<not> has_line s q" if "q \<noteq> 0" for q
    using that line_owners_iff [of q s] by auto
  then have "check_winner s = (if \<exists>j\<in>set col_indices. tops s j < ROWS then 0 else - 1)"
    by (intro check_winner_no_line) simp
  with a show "check_winner s = - 1" by (auto simp: full_board_def list_all_iff)
next
  assume a: "line_owners s = [] \<and> get_valid_moves s \<noteq> []"
  then have "\<not> has_line s q" if "q \<noteq> 0" for q
    using that line_owners_iff [of q s] by auto
  then have "check_winner s = (if \<exists>j\<in>set col_indices. tops s j < ROWS then 0 else - 1)"
    by (intro check_winner_no_line) simp
  moreover from a have "\<exists>j\<in>set col_indices. tops s j < ROWS"
    by (auto simp: get_valid_moves_def filter_empty_conv)
  ultimately show "check_winner s = 0" by simp
next
  show "check_winner s =
      (case find (starts_line s) grid_cells of
         Some (i, j) \<Rightarrow> board s i j
       | None \<Rightarrow> if get_valid_moves s = [] then - 1 else 0)"
    by (rule check_winner_first)
  show "sorted_wrt (\<lambda>a b. fst a < fst b \<or> (fst a = fst b \<and> snd a < snd b)) grid_cells"
    by (rule grid_cells_row_major)
  show "set grid_cells = {(i, j). in_grid i j}"
    by (auto simp: in_grid_cells [symmetric])
qed

text \<open>The amended C3 on a board with one line of player 1, on a full board without a line,
  on the empty board, and on the board where both players own a line: the first cell that
  starts a line is \<open>(0, 0)\<close>, which holds a stone of player 1.\<close>

theorem check_winner_characterisation_witness:
  "set (line_owners line_state) = {1} \<and> check_winner line_state = 1 \<and>
   has_line line_state 1 \<and>
   line_owners draw_state = [] \<and> full_board draw_state \<and> check_winner draw_state = - 1 \<and>
   line_owners empty_state = [] \<and> get_valid_moves empty_state \<noteq> [] \<and>
   check_winner empty_state = 0 \<and>
   has_line two_lines_state 1 \<and> has_line two_lines_state 2 \<and>
   find (starts_line two_lines_state) grid_cells = Some (0, 0) \<and>
   board two_lines_state 0 0 = 1 \<and> check_winner two_lines_state = 1"
proof -
  have one: "(1::int) = 1 \<or> (1::int) = 2" by simp
  note l = check_winner_characterisation [OF one, of line_state]
  note d = check_winner_characterisation [OF one, of draw_state]
  note e = check_winner_characterisation [OF one, of empty_state]
  note t = check_winner_characterisation [OF one, of two_lines_state]
  from l line_state_owners have w: "check_winner line_state = 1" by blast
  with l have "has_line line_state 1" by blast
  moreover from d draw_state_vals(2,3) have "check_winner draw_state = - 1" by blast
  moreover from e empty_state_vals(2,3) have "check_winner empty_state = 0" by blast
  moreover have f: "find (starts_line two_lines_state) grid_cells = Some (0, 0)"
    "board two_lines_state 0 0 = 1"
    by (simp_all add: starts_line_def eval_simps line_simps)
  moreover from t have "check_winner two_lines_state =
      (case find (starts_line two_lines_state) grid_cells of
         Some (i, j) \<Rightarrow> board two_lines_state i j
       | None \<Rightarrow> if get_valid_moves two_lines_state = [] then - 1 else 0)"
    by blast
  with f have "check_winner two_lines_state = 1" by simp
  ultimately show ?thesis
    using w line_state_owners draw_state_vals(2,3) empty_state_vals(2,3) two_lines_vals(2,3)
    by blast
qed

text \<open>
  C3 as stated fails: the input whose row 0 starts with four stones of player 1 and whose
  row 1 starts with four stones of player 2 is read into \<open>two_lines_state\<close>; player 2 owns
  a line there, but the scan meets the line of player 1 first and returns 1.
\<close>

theorem check_winner_counterexample:
  "read_root_state
     (Num 1 # map Num ([1, 1, 1, 1, 0, 0, 0, 2, 2, 2, 2, 0, 0, 0] @ replicate 28 0))
     = Inr two_lines_state \<and>
   has_line two_lines_state 2 \<and> check_winner two_lines_state \<noteq> 2"
proof -
  have "read_root_state
      (Num 1 # map Num ([1, 1, 1, 1, 0, 0, 0, 2, 2, 2, 2, 0, 0, 0] @ replicate 28 0) @ [])
      = Inr two_lines_state"
    unfolding two_lines_state_def by (rule read_root_state_nums) (simp_all add: small_examples)
  then show ?thesis by (simp add: two_lines_vals)
qed

text \<open>
  C4. For every state and root player 1 or 2, \<^verbatim>\<open>evaluate_state\<close> returns +100000 when
  \<^verbatim>\<open>check_winner\<close> returns the root player, -100000 when it returns the opponent
  \<open>3 - root_player\<close>, 0 when it returns Draw (-1), and otherwise the number of the root
  player's stones on the board minus the number of the opponent's stones.
\<close>

theorem evaluate_state_cases:
  assumes "root_player = 1 \<or> root_player = 2"
  shows "(check_winner s = root_player \<longrightarrow> evaluate_state s root_player = 100000) \<and>
         (check_winner s = 3 - root_player \<longrightarrow> evaluate_state s root_player = - 100000) \<and>
         (check_winner s = - 1 \<longrightarrow> evaluate_state s root_player = 0) \<and>
         (check_winner s \<noteq> root_player \<and> check_winner s \<noteq> 3 - root_player \<and>
          check_winner s \<noteq> - 1 \<longrightarrow>
            evaluate_state s root_player =
              stone_count s root_player - stone_count s (3 - root_player))"
proof -
  from assms have "root_player \<noteq> 3 - root_player" "root_player \<noteq> - 1" "3 - root_player \<noteq> - 1"
    by auto
  then show ?thesis by (simp add: evaluate_state_eq)
qed

text \<open>C4 on a board that player 1 has won (seen by both players), on a drawn board, and
  on a board in progress that holds one stone of player 1.\<close>

theorem evaluate_state_cases_witness:
  "check_winner line_state = 1 \<and> evaluate_state line_state 1 = 100000 \<and>
   check_winner line_state = 3 - 2 \<and> evaluate_state line_state 2 = - 100000 \<and>
   check_winner draw_state = - 1 \<and> evaluate_state draw_state 1 = 0 \<and>
   check_winner float_state = 0 \<and> stone_count float_state 1 = 1 \<and>
   stone_count float_state (3 - 1) = 0 \<and> evaluate_state float_state 1 = 1"
proof -
  have one: "(1::int) = 1 \<or> (1::int) = 2" and two: "(2::int) = 1 \<or> (2::int) = 2" by simp_all
  have f: "check_winner float_state = 0"
    by (simp add: eval_simps grid_cells_eq check_winner_def check_cell_def Let_def)
  have c: "stone_count float_state 1 = 1" "stone_count float_state (3 - 1) = 0"
    by (simp_all add: eval_simps grid_cells_eq stone_count_def)
  from evaluate_state_cases [OF one, of line_state] line_state_vals(1)
  have a1: "evaluate_state line_state 1 = 100000" by simp
  from evaluate_state_cases [OF two, of line_state] line_state_vals(1)
  have a2: "evaluate_state line_state 2 = - 100000" by simp
  from evaluate_state_cases [OF one, of draw_state] draw_state_vals(1)
  have a3: "evaluate_state draw_state 1 = 0" by simp
  from evaluate_state_cases [OF one, of float_state] f c
  have a4: "evaluate_state float_state 1 = 1" by simp
  from a1 a2 a3 a4 f c line_state_vals(1) draw_state_vals(1) show ?thesis by simp
qed

section \<open>Facts about the search\<close>

lemma stone_count_bounds: "0 \<le> stone_count s p \<and> stone_count s p \<le> 42"
proof -
  have "length (filter (\<lambda>(i, j). board s i j = p) grid_cells) \<le> length grid_cells"
    by (rule length_filter_le)
  then show ?thesis by (simp add: stone_count_def length_grid_cells)
qed

lemma evaluate_state_range:
  "- 100000 \<le> evaluate_state s rp \<and> evaluate_state s rp \<le> 100000"
  using stone_count_bounds [of s rp] stone_count_bounds [of s "3 - rp"]
  by (simp add: evaluate_state_eq)

lemma alphabeta_range_aux:
  shows "- 100000 \<le> alphabeta s depth alpha beta maximizing rp \<and>
         alphabeta s depth alpha beta maximizing rp \<le> 100000"
    and "val \<le> 100000 \<Longrightarrow> - 100000 \<le> val \<or> i < length (get_valid_moves s) \<Longrightarrow>
         - 100000 \<le> max_loop s i depth alpha beta val rp \<and>
         max_loop s i depth alpha beta val rp \<le> 100000"
    and "- 100000 \<le> val \<Longrightarrow> val \<le> 100000 \<or> i < length (get_valid_moves s) \<Longrightarrow>
         - 100000 \<le> min_loop s i depth alpha beta val rp \<and>
         min_loop s i depth alpha beta val rp \<le> 100000"
proof (induction s depth alpha beta maximizing rp and s i depth alpha beta val rp
    and s i depth alpha beta val rp rule: alphabeta_max_loop_min_loop.induct)
  case (1 s depth alpha beta maximizing rp)
  show ?case
  proof (cases "depth = 0 \<or> check_winner s \<noteq> 0 \<or> length (get_valid_moves s) = 0")
    case True
    then have "alphabeta s depth alpha beta maximizing rp = evaluate_state s rp"
      by (auto simp: alphabeta.simps)
    with evaluate_state_range show ?thesis by simp
  next
    case False
    then have pos: "0 < length (get_valid_moves s)" by simp
    show ?thesis
    proof (cases "maximizing \<noteq> 0")
      case True
      with False have eq: "alphabeta s depth alpha beta maximizing rp
          = max_loop s 0 depth alpha beta INT_MIN rp"
        by (simp add: alphabeta.simps)
      from False True have "- 100000 \<le> max_loop s 0 depth alpha beta INT_MIN rp \<and>
          max_loop s 0 depth alpha beta INT_MIN rp \<le> 100000"
        by (intro "1.IH"(1)) (use pos in \<open>simp_all add: INT_MIN_def\<close>)
      with eq show ?thesis by simp
    next
      case nm: False
      with False have eq: "alphabeta s depth alpha beta maximizing rp
          = min_loop s 0 depth alpha beta INT_MAX rp"
        by (simp add: alphabeta.simps)
      from False nm have "- 100000 \<le> min_loop s 0 depth alpha beta INT_MAX rp \<and>
          min_loop s 0 depth alpha beta INT_MAX rp \<le> 100000"
        by (intro "1.IH"(2)) (use pos in \<open>simp_all add: INT_MAX_def\<close>)
      with eq show ?thesis by simp
    qed
  qed
next
  case (2 s i depth alpha beta val rp)
  show ?case
  proof (cases "i < length (get_valid_moves s)")
    case False
    with "2.prems" show ?thesis by (simp add: max_loop.simps)
  next
    case True
    define child where "child = apply_move (copy_state s) (get_valid_moves s ! i)"
    define score where "score = alphabeta child (depth - 1) alpha beta 0 rp"
    define val' where "val' = (if score > val then score else val)"
    define alpha' where "alpha' = (if val' > alpha then val' else alpha)"
    have sc: "- 100000 \<le> score \<and> score \<le> 100000"
      unfolding score_def by (rule "2.IH"(1) [OF True child_def])
    with "2.prems"(1) have v': "- 100000 \<le> val' \<and> val' \<le> 100000"
      by (auto simp: val'_def)
    have unfold: "max_loop s i depth alpha beta val rp =
        (if alpha' \<ge> beta then val' else max_loop s (i + 1) depth alpha' beta val' rp)"
      using True by (subst max_loop.simps) (simp add: Let_def child_def score_def val'_def alpha'_def)
    show ?thesis
    proof (cases "alpha' \<ge> beta")
      case True
      with unfold v' show ?thesis by simp
    next
      case False
      from v' have "- 100000 \<le> max_loop s (i + 1) depth alpha' beta val' rp \<and>
          max_loop s (i + 1) depth alpha' beta val' rp \<le> 100000"
        by (intro "2.IH"(2) [OF True child_def score_def val'_def alpha'_def]) (use False in simp_all)
      with unfold False show ?thesis by simp
    qed
  qed
next
  case (3 s i depth alpha beta val rp)
  show ?case
  proof (cases "i < length (get_valid_moves s)")
    case False
    with "3.prems" show ?thesis by (simp add: min_loop.simps)
  next
    case True
    define child where "child = apply_move (copy_state s) (get_valid_moves s ! i)"
    define score where "score = alphabeta child (depth - 1) alpha beta 1 rp"
    define val' where "val' = (if score < val then score else val)"
    define beta' where "beta' = (if val' < beta then val' else beta)"
    have sc: "- 100000 \<le> score \<and> score \<le> 100000"
      unfolding score_def by (rule "3.IH"(1) [OF True child_def])
    with "3.prems"(1) have v': "- 100000 \<le> val' \<and> val' \<le> 100000"
      by (auto simp: val'_def)
    have unfold: "min_loop s i depth alpha beta val rp =
        (if alpha \<ge> beta' then val' else min_loop s (i + 1) depth alpha beta' val' rp)"
      using True by (subst min_loop.simps) (simp add: Let_def child_def score_def val'_def beta'_def)
    show ?thesis
    proof (cases "alpha \<ge> beta'")
      case True
      with unfold v' show ?thesis by simp
    next
      case False
      from v' have "- 100000 \<le> min_loop s (i + 1) depth alpha beta' val' rp \<and>
          min_loop s (i + 1) depth alpha beta' val' rp \<le> 100000"
        by (intro "3.IH"(2) [OF True child_def score_def val'_def beta'_def]) (use False in simp_all)
      with unfold False show ?thesis by simp
    qed
  qed
qed

lemma max_step_cut:
  assumes "val \<le> alpha" and "alpha < beta" and "soft_bound alpha beta v score"
    and "val' = max val score" and "alpha' = max alpha val'" and "beta \<le> alpha'"
    and "val \<le> rest"
  shows "val \<le> val' \<and> soft_bound alpha beta (max v rest) val'"
  using assms unfolding soft_bound_def by (auto simp: max_def split: if_splits)

lemma max_step_go:
  assumes "val \<le> alpha" and "alpha < beta" and "soft_bound alpha beta v score"
    and "val' = max val score" and "alpha' = max alpha val'" and "\<not> beta \<le> alpha'"
    and "val \<le> rest" and "val' \<le> r" and "soft_bound alpha' beta (max rest score) r"
  shows "val \<le> r \<and> soft_bound alpha beta (max v rest) r"
  using assms unfolding soft_bound_def by (auto simp: max_def split: if_splits)

lemma min_step_cut:
  assumes "beta \<le> val" and "alpha < beta" and "soft_bound alpha beta v score"
    and "val' = min val score" and "beta' = min beta val'" and "beta' \<le> alpha"
    and "rest \<le> val"
  shows "val' \<le> val \<and> soft_bound alpha beta (min v rest) val'"
  using assms unfolding soft_bound_def by (auto simp: min_def split: if_splits)

lemma min_step_go:
  assumes "beta \<le> val" and "alpha < beta" and "soft_bound alpha beta v score"
    and "val' = min val score" and "beta' = min beta val'" and "\<not> beta' \<le> alpha"
    and "rest \<le> val" and "r \<le> val'" and "soft_bound alpha beta' (min rest score) r"
  shows "r \<le> val \<and> soft_bound alpha beta (min v rest) r"
  using assms unfolding soft_bound_def by (auto simp: min_def split: if_splits)

lemma foldr_max_init: "foldr max xs (max a b) = max (foldr max xs a) (b::int)"
  by (induction xs) auto

lemma foldr_max_ge: "(a::int) \<le> foldr max xs a"
  by (induction xs) auto

lemma foldr_min_init: "foldr min xs (min a b) = min (foldr min xs a) (b::int)"
  by (induction xs) auto

lemma foldr_min_le: "foldr min xs a \<le> (a::int)"
  by (induction xs) auto

lemma foldr_max_Max:
  "xs \<noteq> [] \<Longrightarrow> \<forall>x\<in>set xs. a \<le> x \<Longrightarrow> foldr max xs a = Max (set xs)" for a :: int
proof (induction xs)
  case Nil
  then show ?case by simp
next
  case (Cons x xs)
  show ?case
  proof (cases "xs = []")
    case True
    with Cons.prems show ?thesis by simp
  next
    case False
    with Cons have "foldr max xs a = Max (set xs)" by simp
    with False show ?thesis by simp
  qed
qed

lemma foldr_min_Min:
  "xs \<noteq> [] \<Longrightarrow> \<forall>x\<in>set xs. x \<le> a \<Longrightarrow> foldr min xs a = Min (set xs)" for a :: int
proof (induction xs)
  case Nil
  then show ?case by simp
next
  case (Cons x xs)
  show ?case
  proof (cases "xs = []")
    case True
    with Cons.prems show ?thesis by simp
  next
    case False
    with Cons have "foldr min xs a = Min (set xs)" by simp
    with False show ?thesis by simp
  qed
qed

lemma minimax_range:
  "- 100000 \<le> minimax s depth maximizing rp \<and> minimax s depth maximizing rp \<le> 100000"
proof (induction s depth maximizing rp rule: minimax.induct)
  case (1 s depth maximizing rp)
  show ?case
  proof (cases "depth = 0 \<or> is_terminal s \<or> get_valid_moves s = []")
    case True
    then have "minimax s depth maximizing rp = evaluate_state s rp"
      by (subst minimax.simps) simp
    with evaluate_state_range show ?thesis by simp
  next
    case False
    then have ne: "get_valid_moves s \<noteq> []" by simp
    show ?thesis
    proof (cases maximizing)
      case True
      let ?vals = "map (\<lambda>m. minimax (apply_move s m) (depth - 1) False rp) (get_valid_moves s)"
      from False True have eq: "minimax s depth maximizing rp = Max (set ?vals)"
        by (subst minimax.simps) simp
      from ne have "Max (set ?vals) \<in> set ?vals" by (intro Max_in) simp_all
      then obtain m where "m \<in> set (get_valid_moves s)"
        and "Max (set ?vals) = minimax (apply_move s m) (depth - 1) False rp" by auto
      with "1.IH"(1) [OF False True] eq show ?thesis by simp
    next
      case nm: False
      let ?vals = "map (\<lambda>m. minimax (apply_move s m) (depth - 1) True rp) (get_valid_moves s)"
      from False nm have eq: "minimax s depth maximizing rp = Min (set ?vals)"
        by (subst minimax.simps) simp
      from ne have "Min (set ?vals) \<in> set ?vals" by (intro Min_in) simp_all
      then obtain m where "m \<in> set (get_valid_moves s)"
        and "Min (set ?vals) = minimax (apply_move s m) (depth - 1) True rp" by auto
      with "1.IH"(2) [OF False nm] eq show ?thesis by simp
    qed
  qed
qed

lemma soft_bound_refl: "soft_bound alpha beta v v"
  by (simp add: soft_bound_def)

lemma drop_valid_moves:
  assumes "i < length (get_valid_moves s)"
  shows "map f (drop i (get_valid_moves s))
       = f (get_valid_moves s ! i) # map f (drop (i + 1) (get_valid_moves s))"
  using assms by (simp add: Cons_nth_drop_Suc [symmetric])

lemma alphabeta_soft_aux:
  shows "INT_MIN \<le> alpha \<Longrightarrow> alpha < beta \<Longrightarrow> beta \<le> INT_MAX \<Longrightarrow>
         soft_bound alpha beta (minimax s depth (maximizing \<noteq> 0) rp)
           (alphabeta s depth alpha beta maximizing rp)"
    and "val \<le> alpha \<Longrightarrow> alpha < beta \<Longrightarrow> INT_MIN \<le> alpha \<Longrightarrow> beta \<le> INT_MAX \<Longrightarrow>
         val \<le> max_loop s i depth alpha beta val rp \<and>
         soft_bound alpha beta
           (foldr max (map (\<lambda>m. minimax (apply_move s m) (depth - 1) False rp)
                         (drop i (get_valid_moves s))) val)
           (max_loop s i depth alpha beta val rp)"
    and "beta \<le> val \<Longrightarrow> alpha < beta \<Longrightarrow> INT_MIN \<le> alpha \<Longrightarrow> beta \<le> INT_MAX \<Longrightarrow>
         min_loop s i depth alpha beta val rp \<le> val \<and>
         soft_bound alpha beta
           (foldr min (map (\<lambda>m. minimax (apply_move s m) (depth - 1) True rp)
                         (drop i (get_valid_moves s))) val)
           (min_loop s i depth alpha beta val rp)"
proof (induction s depth alpha beta maximizing rp and s i depth alpha beta val rp
    and s i depth alpha beta val rp rule: alphabeta_max_loop_min_loop.induct)
  case (1 s depth alpha beta maximizing rp)
  show ?case
  proof (cases "depth = 0 \<or> check_winner s \<noteq> 0 \<or> length (get_valid_moves s) = 0")
    case True
    then have "alphabeta s depth alpha beta maximizing rp = evaluate_state s rp"
      by (auto simp: alphabeta.simps)
    moreover from True have "minimax s depth (maximizing \<noteq> 0) rp = evaluate_state s rp"
      by (subst minimax.simps) (auto simp: is_terminal_def)
    ultimately show ?thesis by (simp add: soft_bound_refl)
  next
    case False
    then have ne: "get_valid_moves s \<noteq> []" by auto
    from False have nb: "\<not> (depth = 0 \<or> is_terminal s \<or> get_valid_moves s = [])"
      by (auto simp: is_terminal_def)
    show ?thesis
    proof (cases "maximizing \<noteq> 0")
      case True
      let ?vals = "map (\<lambda>m. minimax (apply_move s m) (depth - 1) False rp) (get_valid_moves s)"
      from False True have eq: "alphabeta s depth alpha beta maximizing rp
          = max_loop s 0 depth alpha beta INT_MIN rp"
        by (simp add: alphabeta.simps)
      from nb True have mm: "minimax s depth (maximizing \<noteq> 0) rp = Max (set ?vals)"
        by (subst minimax.simps) simp
      have "INT_MIN \<le> minimax t d b rp" for t d b
        using minimax_range [of t d b rp] by (simp add: INT_MIN_def)
      then have "\<forall>x\<in>set ?vals. INT_MIN \<le> x" by auto
      with ne have "foldr max ?vals INT_MIN = Max (set ?vals)"
        by (intro foldr_max_Max) simp_all
      moreover from False True "1.prems"
      have "soft_bound alpha beta (foldr max (map (\<lambda>m. minimax (apply_move s m) (depth - 1) False rp)
                (drop 0 (get_valid_moves s))) INT_MIN)
              (max_loop s 0 depth alpha beta INT_MIN rp)"
        by (intro "1.IH"(1) [THEN conjunct2]) simp_all
      ultimately show ?thesis using eq mm by simp
    next
      case nm: False
      let ?vals = "map (\<lambda>m. minimax (apply_move s m) (depth - 1) True rp) (get_valid_moves s)"
      from False nm have eq: "alphabeta s depth alpha beta maximizing rp
          = min_loop s 0 depth alpha beta INT_MAX rp"
        by (simp add: alphabeta.simps)
      from nb nm have mm: "minimax s depth (maximizing \<noteq> 0) rp = Min (set ?vals)"
        by (subst minimax.simps) simp
      have "minimax t d b rp \<le> INT_MAX" for t d b
        using minimax_range [of t d b rp] by (simp add: INT_MAX_def)
      then have "\<forall>x\<in>set ?vals. x \<le> INT_MAX" by auto
      with ne have "foldr min ?vals INT_MAX = Min (set ?vals)"
        by (intro foldr_min_Min) simp_all
      moreover from False nm "1.prems"
      have "soft_bound alpha beta (foldr min (map (\<lambda>m. minimax (apply_move s m) (depth - 1) True rp)
                (drop 0 (get_valid_moves s))) INT_MAX)
              (min_loop s 0 depth alpha beta INT_MAX rp)"
        by (intro "1.IH"(2) [THEN conjunct2]) simp_all
      ultimately show ?thesis using eq mm by simp
    qed
  qed
next
  case (2 s i depth alpha beta val rp)
  let ?mv = "\<lambda>m. minimax (apply_move s m) (depth - 1) False rp"
  show ?case
  proof (cases "i < length (get_valid_moves s)")
    case False
    then have "max_loop s i depth alpha beta val rp = val" by (simp add: max_loop.simps)
    with False "2.prems" show ?thesis by (simp add: soft_bound_def)
  next
    case True
    define child where "child = apply_move (copy_state s) (get_valid_moves s ! i)"
    define score where "score = alphabeta child (depth - 1) alpha beta 0 rp"
    define val' where "val' = (if score > val then score else val)"
    define alpha' where "alpha' = (if val' > alpha then val' else alpha)"
    define rest where "rest = foldr max (map ?mv (drop (i + 1) (get_valid_moves s))) val"
    have unfold: "max_loop s i depth alpha beta val rp =
        (if alpha' \<ge> beta then val' else max_loop s (i + 1) depth alpha' beta val' rp)"
      using True by (subst max_loop.simps) (simp add: Let_def child_def score_def val'_def alpha'_def)
    have total: "foldr max (map ?mv (drop i (get_valid_moves s))) val
        = max (?mv (get_valid_moves s ! i)) rest"
      unfolding rest_def drop_valid_moves [OF True] by simp
    have v: "val' = max val score" by (simp add: val'_def max_def)
    have a: "alpha' = max alpha val'" by (simp add: alpha'_def max_def)
    have rest_ge: "val \<le> rest" unfolding rest_def by (rule foldr_max_ge)
    have "soft_bound alpha beta (minimax child (depth - 1) ((0::int) \<noteq> 0) rp) score"
      unfolding score_def using "2.prems" by (intro "2.IH"(1) [OF True child_def]) simp_all
    then have sb: "soft_bound alpha beta (?mv (get_valid_moves s ! i)) score"
      by (simp add: child_def copy_state_id)
    show ?thesis
    proof (cases "alpha' \<ge> beta")
      case cut: True
      with unfold have r: "max_loop s i depth alpha beta val rp = val'" by simp
      from max_step_cut [OF "2.prems"(1,2) sb v a cut rest_ge] show ?thesis
        unfolding r total .
    next
      case go: False
      with unfold have r: "max_loop s i depth alpha beta val rp
          = max_loop s (i + 1) depth alpha' beta val' rp" by simp
      have "val' \<le> max_loop s (i + 1) depth alpha' beta val' rp \<and>
            soft_bound alpha' beta (foldr max (map ?mv (drop (i + 1) (get_valid_moves s))) val')
              (max_loop s (i + 1) depth alpha' beta val' rp)"
        using go "2.prems"
        by (intro "2.IH"(2) [OF True child_def score_def val'_def alpha'_def])
           (simp_all add: a)
      moreover have "foldr max (map ?mv (drop (i + 1) (get_valid_moves s))) val' = max rest score"
        unfolding v rest_def by (rule foldr_max_init)
      ultimately have ih: "val' \<le> max_loop s (i + 1) depth alpha' beta val' rp"
        "soft_bound alpha' beta (max rest score) (max_loop s (i + 1) depth alpha' beta val' rp)"
        by simp_all
      from max_step_go [OF "2.prems"(1,2) sb v a go rest_ge ih] show ?thesis
        unfolding r total .
    qed
  qed
next
  case (3 s i depth alpha beta val rp)
  let ?mv = "\<lambda>m. minimax (apply_move s m) (depth - 1) True rp"
  show ?case
  proof (cases "i < length (get_valid_moves s)")
    case False
    then have "min_loop s i depth alpha beta val rp = val" by (simp add: min_loop.simps)
    with False "3.prems" show ?thesis by (simp add: soft_bound_def)
  next
    case True
    define child where "child = apply_move (copy_state s) (get_valid_moves s ! i)"
    define score where "score = alphabeta child (depth - 1) alpha beta 1 rp"
    define val' where "val' = (if score < val then score else val)"
    define beta' where "beta' = (if val' < beta then val' else beta)"
    define rest where "rest = foldr min (map ?mv (drop (i + 1) (get_valid_moves s))) val"
    have unfold: "min_loop s i depth alpha beta val rp =
        (if alpha \<ge> beta' then val' else min_loop s (i + 1) depth alpha beta' val' rp)"
      using True by (subst min_loop.simps) (simp add: Let_def child_def score_def val'_def beta'_def)
    have total: "foldr min (map ?mv (drop i (get_valid_moves s))) val
        = min (?mv (get_valid_moves s ! i)) rest"
      unfolding rest_def drop_valid_moves [OF True] by simp
    have v: "val' = min val score" by (simp add: val'_def min_def)
    have b: "beta' = min beta val'" by (simp add: beta'_def min_def)
    have rest_le: "rest \<le> val" unfolding rest_def by (rule foldr_min_le)
    have "soft_bound alpha beta (minimax child (depth - 1) ((1::int) \<noteq> 0) rp) score"
      unfolding score_def using "3.prems" by (intro "3.IH"(1) [OF True child_def]) simp_all
    then have sb: "soft_bound alpha beta (?mv (get_valid_moves s ! i)) score"
      by (simp add: child_def copy_state_id)
    show ?thesis
    proof (cases "alpha \<ge> beta'")
      case cut: True
      with unfold have r: "min_loop s i depth alpha beta val rp = val'" by simp
      from min_step_cut [OF "3.prems"(1,2) sb v b cut rest_le] show ?thesis
        unfolding r total .
    next
      case go: False
      with unfold have r: "min_loop s i depth alpha beta val rp
          = min_loop s (i + 1) depth alpha beta' val' rp" by simp
      have "min_loop s (i + 1) depth alpha beta' val' rp \<le> val' \<and>
            soft_bound alpha beta' (foldr min (map ?mv (drop (i + 1) (get_valid_moves s))) val')
              (min_loop s (i + 1) depth alpha beta' val' rp)"
        using go "3.prems"
        by (intro "3.IH"(2) [OF True child_def score_def val'_def beta'_def])
           (simp_all add: b)
      moreover have "foldr min (map ?mv (drop (i + 1) (get_valid_moves s))) val' = min rest score"
        unfolding v rest_def by (rule foldr_min_init)
      ultimately have ih: "min_loop s (i + 1) depth alpha beta' val' rp \<le> val'"
        "soft_bound alpha beta' (min rest score) (min_loop s (i + 1) depth alpha beta' val' rp)"
        by simp_all
      from min_step_go [OF "3.prems"(1,2) sb v b go rest_le ih] show ?thesis
        unfolding r total .
    qed
  qed
qed

lemma empty_moves: "get_valid_moves empty_state = [0, 1, 2, 3, 4, 5, 6]"
  by (simp add: get_valid_moves_def eval_simps)

lemma empty_child_winner:
  "check_winner (apply_move empty_state 0) = 0"
  "check_winner (apply_move empty_state 1) = 0"
  "check_winner (apply_move empty_state 2) = 0"
  "check_winner (apply_move empty_state 3) = 0"
  "check_winner (apply_move empty_state 4) = 0"
  "check_winner (apply_move empty_state 5) = 0"
  "check_winner (apply_move empty_state 6) = 0"
  by (simp_all add: check_winner_def check_cell_def Let_def apply_move_board apply_move_tops
      eval_simps grid_cells_eq)

lemma empty_child_count:
  "stone_count (apply_move empty_state 0) 1 = 1 \<and> stone_count (apply_move empty_state 0) 2 = 0"
  "stone_count (apply_move empty_state 1) 1 = 1 \<and> stone_count (apply_move empty_state 1) 2 = 0"
  "stone_count (apply_move empty_state 2) 1 = 1 \<and> stone_count (apply_move empty_state 2) 2 = 0"
  "stone_count (apply_move empty_state 3) 1 = 1 \<and> stone_count (apply_move empty_state 3) 2 = 0"
  "stone_count (apply_move empty_state 4) 1 = 1 \<and> stone_count (apply_move empty_state 4) 2 = 0"
  "stone_count (apply_move empty_state 5) 1 = 1 \<and> stone_count (apply_move empty_state 5) 2 = 0"
  "stone_count (apply_move empty_state 6) 1 = 1 \<and> stone_count (apply_move empty_state 6) 2 = 0"
  by (simp_all add: stone_count_def apply_move_board eval_simps grid_cells_eq)

lemma empty_child_eval:
  "evaluate_state (apply_move empty_state 0) 1 = 1"
  "evaluate_state (apply_move empty_state 1) 1 = 1"
  "evaluate_state (apply_move empty_state 2) 1 = 1"
  "evaluate_state (apply_move empty_state 3) 1 = 1"
  "evaluate_state (apply_move empty_state 4) 1 = 1"
  "evaluate_state (apply_move empty_state 5) 1 = 1"
  "evaluate_state (apply_move empty_state 6) 1 = 1"
  by (simp_all add: evaluate_state_eq empty_child_winner empty_child_count)

lemmas search_simps =
  alphabeta.simps max_loop.simps min_loop.simps Let_def copy_state_id
  empty_moves empty_state_vals(1) empty_child_winner empty_child_eval INT_MIN_def INT_MAX_def

lemma alphabeta_range:
  "- 100000 \<le> alphabeta s depth alpha beta maximizing rp \<and>
   alphabeta s depth alpha beta maximizing rp \<le> 100000"
  by (rule alphabeta_range_aux(1))

lemma search_loop_first_max:
  fixes root depth rp
  defines "f \<equiv> \<lambda>m. alphabeta (apply_move root m) (depth - 1) INT_MIN INT_MAX 0 rp"
  shows "search_loop root depth rp ms (bm, bv) = (bm', bv') \<Longrightarrow>
         ((\<forall>m\<in>set ms. f m \<le> bv) \<and> bm' = bm \<and> bv' = bv) \<or>
         (\<exists>k<length ms. bm' = ms ! k \<and> bv < f (ms ! k) \<and>
            (\<forall>k'<k. f (ms ! k') < f (ms ! k)) \<and> (\<forall>m\<in>set ms. f m \<le> f (ms ! k)))"
proof (induction ms arbitrary: bm bv)
  case Nil
  then show ?case by simp
next
  case (Cons m ms)
  show ?case
  proof (cases "f m > bv")
    case True
    with Cons.prems have "search_loop root depth rp ms (m, f m) = (bm', bv')"
      by (simp add: f_def Let_def copy_state_id)
    from Cons.IH [OF this] show ?thesis
    proof (elim disjE conjE exE)
      assume "\<forall>x\<in>set ms. f x \<le> f m" "bm' = m"
      with True have "0 < length (m # ms) \<and> bm' = (m # ms) ! 0 \<and> bv < f ((m # ms) ! 0) \<and>
          (\<forall>k'<0. f ((m # ms) ! k') < f ((m # ms) ! 0)) \<and>
          (\<forall>x\<in>set (m # ms). f x \<le> f ((m # ms) ! 0))"
        by simp
      then show ?thesis by blast
    next
      fix k
      assume k: "k < length ms" "bm' = ms ! k" "f m < f (ms ! k)"
        "\<forall>k'<k. f (ms ! k') < f (ms ! k)" "\<forall>x\<in>set ms. f x \<le> f (ms ! k)"
      have "\<forall>k'<Suc k. f ((m # ms) ! k') < f (ms ! k)"
      proof (intro allI impI)
        fix k' assume "k' < Suc k"
        with k(3,4) show "f ((m # ms) ! k') < f (ms ! k)" by (cases k') auto
      qed
      with k True have "Suc k < length (m # ms) \<and> bm' = (m # ms) ! Suc k \<and>
          bv < f ((m # ms) ! Suc k) \<and>
          (\<forall>k'<Suc k. f ((m # ms) ! k') < f ((m # ms) ! Suc k)) \<and>
          (\<forall>x\<in>set (m # ms). f x \<le> f ((m # ms) ! Suc k))"
        by auto
      then show ?thesis by blast
    qed
  next
    case False
    with Cons.prems have "search_loop root depth rp ms (bm, bv) = (bm', bv')"
      by (simp add: f_def Let_def copy_state_id)
    from Cons.IH [OF this] show ?thesis
    proof (elim disjE conjE exE)
      assume "\<forall>x\<in>set ms. f x \<le> bv" "bm' = bm" "bv' = bv"
      with False show ?thesis by auto
    next
      fix k
      assume k: "k < length ms" "bm' = ms ! k" "bv < f (ms ! k)"
        "\<forall>k'<k. f (ms ! k') < f (ms ! k)" "\<forall>x\<in>set ms. f x \<le> f (ms ! k)"
      have "\<forall>k'<Suc k. f ((m # ms) ! k') < f (ms ! k)"
      proof (intro allI impI)
        fix k' assume "k' < Suc k"
        with k(3,4) False show "f ((m # ms) ! k') < f (ms ! k)" by (cases k') auto
      qed
      with k False have "Suc k < length (m # ms) \<and> bm' = (m # ms) ! Suc k \<and>
          bv < f ((m # ms) ! Suc k) \<and>
          (\<forall>k'<Suc k. f ((m # ms) ! k') < f ((m # ms) ! Suc k)) \<and>
          (\<forall>x\<in>set (m # ms). f x \<le> f ((m # ms) ! Suc k))"
        by auto
      then show ?thesis by blast
    qed
  qed
qed

lemma alphabeta_search_index:
  assumes "get_valid_moves s \<noteq> []"
  shows "\<exists>k<length (get_valid_moves s).
           alphabeta_search s depth rp = get_valid_moves s ! k \<and>
           (\<forall>k'<k. root_value s depth rp (get_valid_moves s ! k')
                     < root_value s depth rp (get_valid_moves s ! k)) \<and>
           (\<forall>m\<in>set (get_valid_moves s).
              root_value s depth rp m \<le> root_value s depth rp (get_valid_moves s ! k))"
proof -
  let ?ms = "get_valid_moves s"
  obtain bm bv where r: "search_loop s depth rp ?ms (- 1, INT_MIN) = (bm, bv)"
    by (cases "search_loop s depth rp ?ms (- 1, INT_MIN)")
  from assms obtain m where m: "m \<in> set ?ms" by (cases ?ms) auto
  have "INT_MIN < root_value s depth rp m"
    using alphabeta_range [of "apply_move s m" "depth - 1" INT_MIN INT_MAX 0 rp]
    by (simp add: root_value_def INT_MIN_def)
  with m have "\<not> (\<forall>m\<in>set ?ms. root_value s depth rp m \<le> INT_MIN)" by force
  with search_loop_first_max [OF r]
  have "\<exists>k<length ?ms. bm = ?ms ! k \<and>
      (\<forall>k'<k. root_value s depth rp (?ms ! k') < root_value s depth rp (?ms ! k)) \<and>
      (\<forall>m\<in>set ?ms. root_value s depth rp m \<le> root_value s depth rp (?ms ! k))"
    unfolding root_value_def by blast
  with r show ?thesis by (simp add: alphabeta_search_def)
qed

lemma sorted_valid_moves: "sorted_wrt (<) (get_valid_moves s)"
  unfolding get_valid_moves_def by (rule sorted_wrt_filter) (simp add: col_indices_eq)

section \<open>Claims about the search and the selector\<close>

text \<open>
  C1. \<^verbatim>\<open>alphabeta_search\<close> enumerates the valid columns in ascending order and values each
  by applying the move and running \<^verbatim>\<open>alphabeta\<close> on the child at \<open>depth - 1\<close> as a minimizing
  node with the window \<open>(INT_MIN, INT_MAX)\<close>. When the root has a valid column, it returns
  the first column of that order whose value is the greatest one; a later column with an
  equal value never replaces it. When the root has no valid column it returns -1.
\<close>

theorem alphabeta_search_first_best:
  "sorted_wrt (<) (get_valid_moves s) \<and>
   set (get_valid_moves s) = {c. 0 \<le> c \<and> c < COLS \<and> tops s c < ROWS} \<and>
   (get_valid_moves s \<noteq> [] \<longrightarrow>
      find (\<lambda>m. root_value s depth rp m = Max (set (map (root_value s depth rp) (get_valid_moves s))))
        (get_valid_moves s) = Some (alphabeta_search s depth rp)) \<and>
   (get_valid_moves s = [] \<longrightarrow> alphabeta_search s depth rp = - 1)"
proof (intro conjI impI)
  show "sorted_wrt (<) (get_valid_moves s)" by (rule sorted_valid_moves)
  show "set (get_valid_moves s) = {c. 0 \<le> c \<and> c < COLS \<and> tops s c < ROWS}"
    by (auto simp: valid_move_iff)
next
  assume "get_valid_moves s = []"
  then show "alphabeta_search s depth rp = - 1" by (simp add: alphabeta_search_def)
next
  let ?ms = "get_valid_moves s"
  let ?f = "root_value s depth rp"
  assume "?ms \<noteq> []"
  from alphabeta_search_index [OF this, of depth rp]
  obtain k where k: "k < length ?ms" "alphabeta_search s depth rp = ?ms ! k"
    and before: "\<forall>k'<k. ?f (?ms ! k') < ?f (?ms ! k)"
    and all: "\<forall>m\<in>set ?ms. ?f m \<le> ?f (?ms ! k)"
    by blast
  from k(1) have "?f (?ms ! k) \<in> set (map ?f ?ms)" by simp
  with all have mx: "Max (set (map ?f ?ms)) = ?f (?ms ! k)"
    by (intro Max_eqI) auto
  from before have "\<forall>k'<k. ?f (?ms ! k') \<noteq> ?f (?ms ! k)" by auto
  with k mx show "find (\<lambda>m. ?f m = Max (set (map ?f ?ms))) ?ms = Some (alphabeta_search s depth rp)"
    unfolding find_Some_iff by auto
qed

text \<open>C1 on the empty board at depth 1, where all seven columns have the value 1 and column
  0 is returned, and on a full board, where -1 is returned.\<close>

theorem alphabeta_search_first_best_witness:
  "get_valid_moves empty_state \<noteq> [] \<and>
   map (root_value empty_state 1 1) (get_valid_moves empty_state) = [1, 1, 1, 1, 1, 1, 1] \<and>
   alphabeta_search empty_state 1 1 = 0 \<and>
   get_valid_moves draw_state = [] \<and> alphabeta_search draw_state 6 1 = - 1"
proof -
  have vals: "map (root_value empty_state 1 1) (get_valid_moves empty_state) = [1, 1, 1, 1, 1, 1, 1]"
    by (simp add: root_value_def search_simps)
  have ne: "get_valid_moves empty_state \<noteq> []" by (simp add: empty_moves)
  have full: "get_valid_moves draw_state = []"
    by (simp add: get_valid_moves_def eval_simps)
  note e = alphabeta_search_first_best [of empty_state 1 1]
  note d = alphabeta_search_first_best [of draw_state 6 1]
  from e ne
  have "find (\<lambda>m. root_value empty_state 1 1 m
          = Max (set (map (root_value empty_state 1 1) (get_valid_moves empty_state))))
        (get_valid_moves empty_state) = Some (alphabeta_search empty_state 1 1)"
    by blast
  moreover have "root_value empty_state 1 1 0 = 1"
    by (simp add: root_value_def search_simps)
  ultimately have "alphabeta_search empty_state 1 1 = 0"
    unfolding vals by (simp add: empty_moves)
  moreover from d full have "alphabeta_search draw_state 6 1 = - 1" by blast
  ultimately show ?thesis using vals ne full by simp
qed

text \<open>
  C2. For every state, every depth (the source's \<open>int\<close>, so in particular every depth
  \<open>d \<ge> 0\<close>) and every root player, \<^verbatim>\<open>alphabeta\<close> called with the window
  \<open>(INT_MIN, INT_MAX)\<close> returns exactly the value of full unpruned minimax to the same depth
  over the same move model and evaluator. At depth 0 and at a terminal state both return
  \<^verbatim>\<open>evaluate_state\<close> of the state, whatever the window.
\<close>

theorem alphabeta_full_window:
  "alphabeta s depth INT_MIN INT_MAX maximizing rp = minimax s depth (maximizing \<noteq> 0) rp \<and>
   alphabeta s 0 alpha beta maximizing rp = evaluate_state s rp \<and>
   minimax s 0 (maximizing \<noteq> 0) rp = evaluate_state s rp \<and>
   (is_terminal s \<longrightarrow> alphabeta s depth alpha beta maximizing rp = evaluate_state s rp \<and>
      minimax s depth (maximizing \<noteq> 0) rp = evaluate_state s rp)"
proof (intro conjI impI)
  have "soft_bound INT_MIN INT_MAX (minimax s depth (maximizing \<noteq> 0) rp)
      (alphabeta s depth INT_MIN INT_MAX maximizing rp)"
    by (rule alphabeta_soft_aux(1)) (simp_all add: INT_MIN_def INT_MAX_def)
  with alphabeta_range [of s depth INT_MIN INT_MAX maximizing rp]
  show "alphabeta s depth INT_MIN INT_MAX maximizing rp = minimax s depth (maximizing \<noteq> 0) rp"
    by (simp add: soft_bound_def INT_MIN_def INT_MAX_def)
  show "alphabeta s 0 alpha beta maximizing rp = evaluate_state s rp"
    by (simp add: alphabeta.simps)
  show "minimax s 0 (maximizing \<noteq> 0) rp = evaluate_state s rp"
    by (subst minimax.simps) simp
next
  assume "is_terminal s"
  then show "alphabeta s depth alpha beta maximizing rp = evaluate_state s rp"
    by (simp add: alphabeta.simps is_terminal_def)
next
  assume "is_terminal s"
  then show "minimax s depth (maximizing \<noteq> 0) rp = evaluate_state s rp"
    by (subst minimax.simps) simp
qed

text \<open>C2 on a terminal board at depth 6 and on the empty board at depth 1.\<close>

theorem alphabeta_full_window_witness:
  "is_terminal line_state \<and>
   alphabeta line_state 6 INT_MIN INT_MAX 1 1 = 100000 \<and>
   minimax line_state 6 True 1 = 100000 \<and>
   alphabeta empty_state 1 INT_MIN INT_MAX 1 1 = 1 \<and>
   minimax empty_state 1 True 1 = 1"
proof -
  have t: "is_terminal line_state" by (simp add: is_terminal_def line_state_vals)
  have ev: "evaluate_state line_state 1 = 100000"
    by (simp add: evaluate_state_eq line_state_vals)
  have ab: "alphabeta empty_state 1 INT_MIN INT_MAX 1 1 = 1"
    by (simp add: search_simps)
  note l = alphabeta_full_window [of line_state 6 1 1 INT_MIN INT_MAX]
  note e = alphabeta_full_window [of empty_state 1 1 1 INT_MIN INT_MAX]
  from l t ev have "alphabeta line_state 6 INT_MIN INT_MAX 1 1 = 100000 \<and>
      minimax line_state 6 True 1 = 100000" by simp
  moreover from e ab have "minimax empty_state 1 True 1 = 1" by simp
  ultimately show ?thesis using t ab by simp
qed

text \<open>
  C7 (amended). The search is fail-soft: the value returned is not clipped to the window.
  For every state, depth and bounds \<open>INT_MIN \<le> alpha < beta \<le> INT_MAX\<close>, the value \<open>r\<close>
  returned by \<^verbatim>\<open>alphabeta\<close> and the exact minimax value \<open>v\<close> of the node satisfy: \<open>r = v\<close> when
  \<open>alpha < r < beta\<close>; \<open>v \<le> r\<close> when \<open>r \<le> alpha\<close>; \<open>r \<le> v\<close> when \<open>beta \<le> r\<close>; and \<open>r\<close> always
  lies between -100000 and 100000. In both sibling loops the remaining siblings are
  skipped exactly when \<open>alpha \<ge> beta\<close> holds after the update.
\<close>

theorem alphabeta_fail_soft:
  assumes "INT_MIN \<le> alpha" and "alpha < beta" and "beta \<le> INT_MAX"
  shows "soft_bound alpha beta (minimax s depth (maximizing \<noteq> 0) rp)
           (alphabeta s depth alpha beta maximizing rp) \<and>
         - 100000 \<le> alphabeta s depth alpha beta maximizing rp \<and>
         alphabeta s depth alpha beta maximizing rp \<le> 100000 \<and>
         (i < length (get_valid_moves s) \<longrightarrow>
            max_loop s i depth alpha beta val rp =
              (let score = alphabeta (apply_move s (get_valid_moves s ! i)) (depth - 1)
                             alpha beta 0 rp;
                   val' = max val score; alpha' = max alpha val'
               in if alpha' \<ge> beta then val'
                  else max_loop s (i + 1) depth alpha' beta val' rp)) \<and>
         (i < length (get_valid_moves s) \<longrightarrow>
            min_loop s i depth alpha beta val rp =
              (let score = alphabeta (apply_move s (get_valid_moves s ! i)) (depth - 1)
                             alpha beta 1 rp;
                   val' = min val score; beta' = min beta val'
               in if alpha \<ge> beta' then val'
                  else min_loop s (i + 1) depth alpha beta' val' rp))"
proof (intro conjI impI)
  show "soft_bound alpha beta (minimax s depth (maximizing \<noteq> 0) rp)
      (alphabeta s depth alpha beta maximizing rp)"
    by (rule alphabeta_soft_aux(1) [OF assms])
  show "- 100000 \<le> alphabeta s depth alpha beta maximizing rp"
    and "alphabeta s depth alpha beta maximizing rp \<le> 100000"
    using alphabeta_range [of s depth alpha beta maximizing rp] by simp_all
next
  assume "i < length (get_valid_moves s)"
  then show "max_loop s i depth alpha beta val rp =
      (let score = alphabeta (apply_move s (get_valid_moves s ! i)) (depth - 1) alpha beta 0 rp;
           val' = max val score; alpha' = max alpha val'
       in if alpha' \<ge> beta then val' else max_loop s (i + 1) depth alpha' beta val' rp)"
    by (subst max_loop.simps) (simp add: Let_def copy_state_id max_def)
next
  assume "i < length (get_valid_moves s)"
  then show "min_loop s i depth alpha beta val rp =
      (let score = alphabeta (apply_move s (get_valid_moves s ! i)) (depth - 1) alpha beta 1 rp;
           val' = min val score; beta' = min beta val'
       in if alpha \<ge> beta' then val' else min_loop s (i + 1) depth alpha beta' val' rp)"
    by (subst min_loop.simps) (simp add: Let_def copy_state_id min_def)
qed

text \<open>The amended C7 on the empty board at depth 1 with the window \<open>(-5, 10)\<close>: the result 1
  lies strictly inside and is the minimax value.\<close>

theorem alphabeta_fail_soft_witness:
  "INT_MIN \<le> - 5 \<and> (- 5 :: int) < 10 \<and> 10 \<le> INT_MAX \<and>
   alphabeta empty_state 1 (- 5) 10 1 1 = 1 \<and>
   minimax empty_state 1 True 1 = 1"
proof -
  have h1: "INT_MIN \<le> - 5" by (simp add: INT_MIN_def)
  have h2: "(- 5 :: int) < 10" by simp
  have h3: "10 \<le> INT_MAX" by (simp add: INT_MAX_def)
  have ab: "alphabeta empty_state 1 (- 5) 10 1 1 = 1"
    by (simp add: search_simps)
  from alphabeta_fail_soft [OF h1 h2 h3, of empty_state 1 1 1]
  have "soft_bound (- 5) 10 (minimax empty_state 1 ((1::int) \<noteq> 0) 1)
      (alphabeta empty_state 1 (- 5) 10 1 1)" by blast
  with ab have "minimax empty_state 1 True 1 = 1" by (simp add: soft_bound_def)
  with h1 h2 h3 ab show ?thesis by simp
qed

text \<open>
  C7 as stated fails: on the empty board at depth 1, maximizing for player 1 with the
  window \<open>(5, 10)\<close>, every child scores 1 and \<^verbatim>\<open>alphabeta\<close> returns 1, which lies below
  \<open>alpha\<close>.
\<close>

theorem alphabeta_fail_hard_counterexample:
  "INT_MIN \<le> 5 \<and> (5 :: int) < 10 \<and> 10 \<le> INT_MAX \<and>
   alphabeta empty_state 1 5 10 1 1 = 1 \<and>
   \<not> (5 \<le> alphabeta empty_state 1 5 10 1 1 \<and> alphabeta empty_state 1 5 10 1 1 \<le> 10)"
proof -
  have "alphabeta empty_state 1 5 10 1 1 = 1"
    by (simp add: search_simps)
  then show ?thesis by (simp add: INT_MIN_def INT_MAX_def)
qed

section \<open>Facts about the program\<close>


lemma nums_split:
  "n \<le> length inp \<Longrightarrow> list_all is_Num (take n inp) \<Longrightarrow>
   inp = map Num (map the_num (take n inp)) @ drop n inp"
proof -
  assume n: "n \<le> length inp" and a: "list_all is_Num (take n inp)"
  have "map Num (map the_num xs) = xs" if "list_all is_Num xs" for xs
    using that by (induction xs) auto
  from this [OF a] show ?thesis by simp
qed

lemma parse_input_Some:
  assumes "parse_input inp = Some (p, vs)"
  shows "\<exists>q ws. (store_int q = 1 \<or> store_int q = 2) \<and> length ws = 42 \<and>
           p = store_int q \<and> vs = map store_int ws \<and>
           inp = Num q # map Num ws @ drop 43 inp"
proof -
  from assms obtain q rest where inp: "inp = Num q # rest"
    and q: "store_int q = 1 \<or> store_int q = 2" and p: "p = store_int q"
    and len: "42 \<le> length rest"
    and nums: "list_all is_Num (take 42 rest)"
    and vs: "vs = map (\<lambda>t. store_int (the_num t)) (take 42 rest)"
    by (auto simp: parse_input_def split: list.splits token.splits if_splits)
  define ws where "ws = map the_num (take 42 rest)"
  from nums_split [OF len nums] have "rest = map Num ws @ drop 42 rest"
    by (simp add: ws_def)
  moreover from vs have "vs = map store_int ws" by (simp add: ws_def comp_def)
  moreover from len have "length ws = 42" by (simp add: ws_def)
  ultimately show ?thesis using inp q p by auto
qed

lemma parse_input_stored:
  assumes "store_int p = 1 \<or> store_int p = 2" and "length vs = 42"
  shows "parse_input (Num p # map Num vs @ rest) = Some (store_int p, map store_int vs)"
proof -
  have "list_all is_Num (map Num vs)" by (simp add: list_all_iff)
  moreover have "map (\<lambda>t. store_int (the_num t)) (map Num vs) = map store_int vs"
    by (simp add: comp_def)
  ultimately show ?thesis using assms by (simp add: parse_input_def)
qed

lemma parse_input_nums:
  assumes "p = 1 \<or> p = 2" and "length vs = 42" and "set vs \<subseteq> {0, 1, 2}"
  shows "parse_input (Num p # map Num vs @ rest) = Some (p, vs)"
  using parse_input_stored [of p vs rest] assms
  by (simp add: store_int_player store_int_small)

lemma read_root_state_parsed:
  assumes "parse_input inp = Some (p, vs)"
  shows "read_root_state inp = Inr (init_state p vs)"
proof -
  from parse_input_Some [OF assms] obtain q ws
    where q: "store_int q = 1 \<or> store_int q = 2" and len: "length ws = 42"
      and p: "p = store_int q" and vs: "vs = map store_int ws"
      and inp: "inp = Num q # map Num ws @ drop 43 inp" by blast
  from read_root_state_stored [OF q len, of "drop 43 inp"] inp p vs show ?thesis by simp
qed


lemma alphabeta_search_valid:
  assumes "get_valid_moves s \<noteq> []"
  shows "alphabeta_search s depth rp \<in> set (get_valid_moves s)"
  using alphabeta_search_index [OF assms, of depth rp] by auto

lemma alphabeta_search_nonneg_iff:
  "(alphabeta_search s depth rp < 0) = (get_valid_moves s = [])"
proof (cases "get_valid_moves s = []")
  case True
  then show ?thesis by (simp add: alphabeta_search_def)
next
  case False
  from alphabeta_search_valid [OF False, of depth rp] False show ?thesis
    by (simp add: valid_move_iff)
qed

lemma main_model_parsed:
  assumes "parse_input inp = Some (p, vs)"
  shows "fst (main_model clock inp) =
     (if get_valid_moves (init_state p vs) = [] then failure No_valid_move
      else \<lparr>exit_status = EXIT_SUCCESS,
            stdout = [stack_name (alphabeta_search (init_state p vs) MAX_DEPTH p)],
            stderr = []\<rparr>)"
  using read_root_state_parsed [OF assms]
  by (simp add: main_model_def Let_def alphabeta_search_nonneg_iff init_state_player)







section \<open>Claims about the program\<close>



text \<open>
  C9. The decision is deterministic: the outcome of the program (exit status, standard
  output, error channel) is the same for every value of the clock that seeds the random
  generator, which only the seed left behind depends on. For the empty board with
  requesting player 1 and the depth \<open>MAX_DEPTH = 6\<close> the program succeeds and the column it
  prints lies in \<open>[0, 6]\<close>.
\<close>

theorem main_deterministic:
  "fst (main_model clock1 inp) = fst (main_model clock2 inp) \<and>
   snd (main_model clock1 inp) = clock1 \<and>
   MAX_DEPTH = 6 \<and>
   read_root_state (Num 1 # map Num empty_cells) = Inr empty_state \<and>
   fst (main_model clock1 (Num 1 # map Num empty_cells)) =
     \<lparr>exit_status = EXIT_SUCCESS,
      stdout = [stack_name (alphabeta_search empty_state MAX_DEPTH 1)],
      stderr = []\<rparr> \<and>
   0 \<le> alphabeta_search empty_state MAX_DEPTH 1 \<and>
   alphabeta_search empty_state MAX_DEPTH 1 \<le> 6"
proof (intro conjI)
  show "fst (main_model clock1 inp) = fst (main_model clock2 inp)"
    by (simp add: main_model_def Let_def)
  show "snd (main_model clock1 inp) = clock1"
    by (simp add: main_model_def Let_def)
  show "MAX_DEPTH = 6" by (simp add: MAX_DEPTH_def)
  have p: "parse_input (Num 1 # map Num empty_cells @ []) = Some (1, empty_cells)"
    by (rule parse_input_nums) (simp_all add: length_examples small_examples)
  from read_root_state_parsed [OF p]
  show "read_root_state (Num 1 # map Num empty_cells) = Inr empty_state"
    by (simp add: empty_state_def)
  from main_model_parsed [OF p, of clock1] empty_moves
  show "fst (main_model clock1 (Num 1 # map Num empty_cells)) =
     \<lparr>exit_status = EXIT_SUCCESS,
      stdout = [stack_name (alphabeta_search empty_state MAX_DEPTH 1)],
      stderr = []\<rparr>"
    by (simp add: empty_state_def)
  have "get_valid_moves empty_state \<noteq> []" by (simp add: empty_moves)
  from alphabeta_search_valid [OF this, of MAX_DEPTH 1]
  show "0 \<le> alphabeta_search empty_state MAX_DEPTH 1"
    and "alphabeta_search empty_state MAX_DEPTH 1 \<le> 6"
    by (simp_all add: valid_move_iff COLS_def)
qed

text \<open>C9 on the empty board, for two different clock values.\<close>

theorem main_deterministic_witness:
  "fst (main_model 0 (Num 1 # map Num empty_cells))
     = fst (main_model 1729 (Num 1 # map Num empty_cells)) \<and>
   snd (main_model 0 (Num 1 # map Num empty_cells)) = 0 \<and>
   snd (main_model 1729 (Num 1 # map Num empty_cells)) = 1729"
  using main_deterministic [of 0 "Num 1 # map Num empty_cells" 1729]
    main_deterministic [of 1729 "Num 1 # map Num empty_cells" 0]
  by simp

end
